theory Spec2Isabelle
  imports Main
begin

section \<open>The doozer store (src/pkg/store/store.go)\<close>

text \<open>
  The store applies mutations in the order of their sequence numbers, keeps a log of
  the events they produce and notifies watches. This theory embeds the mutation codec
  (\<open>checkPath\<close>, \<open>EncodeSet\<close>, \<open>EncodeDel\<close>, \<open>decode\<close>), the watch matching
  (\<open>notify\<close>), one iteration of the dispatcher loop (\<open>process\<close>) and watch
  registration (\<open>watchOn\<close>, \<open>NewWatchFrom\<close>, \<open>Wait\<close>).

  Go's \<open>int64\<close> is modelled as \<open>int\<close>. The codec checks the 64-bit range where the
  library does (\<open>strconv.Atoi64\<close>). The store only adds or subtracts 1 on sequence
  numbers. The wrap-around is written out for \<open>st.head++\<close> in the loop of \<open>Clean\<close>, which
  does not end when it wraps; the other additions are modelled without it.
\<close>

subsection \<open>Errors\<close>

text \<open>
  \<open>os.Error\<close> values: the three package-level errors of the store, its
  \<open>BadPathError\<close>, and the \<open>strconv.NumError\<close> that \<open>strconv.Atoi64\<close> returns
  (with \<open>os.EINVAL\<close> or \<open>os.ERANGE\<close>). A nil error is \<open>None\<close>.
\<close>

datatype errno = EINVAL | ERANGE

datatype error =
    ErrTooLate
  | ErrBadMutation
  | ErrRevMismatch
  | BadPathError string
  | NumError string errno

subsection \<open>Paths\<close>

text \<open>\<open>charPat = `[a-zA-Z0-9.\-]`\<close>, on bytes.\<close>

definition charPat :: "char \<Rightarrow> bool" where
  "charPat c =
     (let n = (of_char c :: nat) in
        (97 \<le> n \<and> n \<le> 122) \<or> (65 \<le> n \<and> n \<le> 90) \<or> (48 \<le> n \<and> n \<le> 57)
        \<or> c = CHR ''.'' \<or> c = CHR ''-'')"

text \<open>
  \<open>pathRe = ^/$|^(/charPat+)+$\<close>. The second alternative is run as the automaton of
  the expression: \<open>afterSlash\<close> has just read a \<open>/\<close> and needs a character of the
  class, \<open>inSegment\<close> has read at least one and accepts at the end of the text.
\<close>

fun afterSlash :: "string \<Rightarrow> bool" and inSegment :: "string \<Rightarrow> bool" where
  "afterSlash [] = False"
| "afterSlash (c # cs) = (charPat c \<and> inSegment cs)"
| "inSegment [] = True"
| "inSegment (c # cs) = (if c = CHR ''/'' then afterSlash cs else charPat c \<and> inSegment cs)"

definition pathRe_MatchString :: "string \<Rightarrow> bool" where
  "pathRe_MatchString k =
     (k = ''/'' \<or> (case k of [] \<Rightarrow> False | c # cs \<Rightarrow> c = CHR ''/'' \<and> afterSlash cs))"

definition checkPath :: "string \<Rightarrow> error option" where
  "checkPath k = (if \<not> pathRe_MatchString k then Some (BadPathError k) else None)"

text \<open>
  The path grammar in the words of the specification: exactly \<open>/\<close>, or one or more
  \<open>/segment\<close> where each segment is a non-empty run of characters of the class.
\<close>

definition path_grammar :: "string \<Rightarrow> bool" where
  "path_grammar p =
     (p = ''/'' \<or>
      (\<exists>segs. segs \<noteq> [] \<and> (\<forall>sg \<in> set segs. sg \<noteq> [] \<and> (\<forall>c \<in> set sg. charPat c))
           \<and> p = concat (map (\<lambda>sg. CHR ''/'' # sg) segs)))"

subsection \<open>Decimal numbers (package strconv)\<close>

text \<open>
  \<open>strconv.Itoa64\<close>: \<open>Uitoa64\<close> assembles the decimal digits from the least significant
  one, in front of what it has; a negative number is the sign and the digits of its
  magnitude.
\<close>

definition digit :: "nat \<Rightarrow> char" where
  "digit d = ''0123456789abcdefghijklmnopqrstuvwxyz'' ! d"

function uitoa_loop :: "nat \<Rightarrow> string \<Rightarrow> string" where
  "uitoa_loop u buf = (if 0 < u then uitoa_loop (u div 10) (digit (u mod 10) # buf) else buf)"
  by pat_completeness auto
termination
  by (relation "measure (\<lambda>(u, buf). u)") auto

declare uitoa_loop.simps [simp del]

definition Uitoa64 :: "nat \<Rightarrow> string" where
  "Uitoa64 u = (if u = 0 then ''0'' else uitoa_loop u [])"

definition Itoa64 :: "int \<Rightarrow> string" where
  "Itoa64 i =
     (if i = 0 then ''0''
      else if i < 0 then ''-'' @ Uitoa64 (nat (- i))
      else Uitoa64 (nat i))"

text \<open>
  \<open>strconv.Atoui64\<close> in base 10: every byte must be a decimal digit (\<open>EINVAL\<close>
  otherwise), and the value must stay below \<open>2^64\<close> (\<open>ERANGE\<close> otherwise, found
  while scanning, before later bytes are looked at). The result is the pair of Go:
  the number and the error.
\<close>

definition is_digit :: "char \<Rightarrow> bool" where
  "is_digit c = (48 \<le> (of_char c :: nat) \<and> (of_char c :: nat) \<le> 57)"

definition cutoff64 :: nat where
  "cutoff64 = (2 ^ 64 - 1) div 10 + 1"

fun btoui_loop :: "string \<Rightarrow> nat \<Rightarrow> nat \<times> errno option" where
  "btoui_loop [] n = (n, None)"
| "btoui_loop (c # cs) n =
     (if \<not> is_digit c then (0, Some EINVAL)
      else if cutoff64 \<le> n then (2 ^ 64 - 1, Some ERANGE)
      else let n1 = n * 10 + (of_char c - 48) in
        if 2 ^ 64 \<le> n1 then (2 ^ 64 - 1, Some ERANGE)
        else btoui_loop cs n1)"

definition Atoui64 :: "string \<Rightarrow> nat \<times> errno option" where
  "Atoui64 s = (if s = [] then (0, Some EINVAL) else btoui_loop s 0)"

text \<open>
  \<open>strconv.Atoi64\<close>: an optional sign, then \<open>Atoui64\<close>, then the range of
  \<open>int64\<close>. The error names the whole input.
\<close>

definition Atoi64 :: "string \<Rightarrow> int \<times> error option" where
  "Atoi64 s =
     (case s of
        [] \<Rightarrow> (0, Some (NumError s EINVAL))
      | c # cs \<Rightarrow>
          let neg = (c = CHR ''-'');
              s1 = (if c = CHR ''+'' \<or> c = CHR ''-'' then cs else s);
              (un, err) = Atoui64 s1
          in if err = Some EINVAL then (0, Some (NumError s EINVAL))
             else if \<not> neg \<and> 2 ^ 63 \<le> un then (2 ^ 63 - 1, Some (NumError s ERANGE))
             else if neg \<and> 2 ^ 63 < un then (- (2 ^ 63), Some (NumError s ERANGE))
             else (if neg then - int un else int un, None))"

definition is_int64 :: "int \<Rightarrow> bool" where
  "is_int64 i = (- (2 ^ 63) \<le> i \<and> i < 2 ^ 63)"

subsection \<open>The mutation codec\<close>

text \<open>
  \<open>strings.Split(s, sep, 2)\<close> for a separator of one byte: the text before the first
  separator and the unsplit rest after it, or the whole text when there is none.
\<close>

fun cutSep :: "char \<Rightarrow> string \<Rightarrow> (string \<times> string) option" where
  "cutSep sep [] = None"
| "cutSep sep (x # xs) =
     (if x = sep then Some ([], xs)
      else (case cutSep sep xs of None \<Rightarrow> None | Some (a, b) \<Rightarrow> Some (x # a, b)))"

definition Split2 :: "string \<Rightarrow> char \<Rightarrow> string list" where
  "Split2 s sep = (case cutSep sep s of None \<Rightarrow> [s] | Some (a, b) \<Rightarrow> [a, b])"

text \<open>
  Go functions with named results return the current values of the results at a bare
  \<open>return\<close>. The results are modelled as tuples, the error last.

  \<open>EncodeSet\<close> assigns the result \<open>err\<close> (\<open>err = checkPath(path)\<close>).
\<close>

definition EncodeSet :: "string \<Rightarrow> string \<Rightarrow> int \<Rightarrow> string \<times> error option" where
  "EncodeSet path body rv =
     (let err = checkPath path in
      if err \<noteq> None then ('''', err)
      else (Itoa64 rv @ '':'' @ path @ ''='' @ body, None))"

text \<open>
  \<open>EncodeDel\<close> declares a new variable in the condition
  (\<open>if err := checkPath(path); err != nil { return }\<close>): the result \<open>err\<close> is not
  assigned, and the bare \<open>return\<close> returns the results as they are, the empty string
  and nil.
\<close>

definition EncodeDel :: "string \<Rightarrow> int \<Rightarrow> string \<times> error option" where
  "EncodeDel path rv =
     (let err' = checkPath path in
      if err' \<noteq> None then ('''', None)
      else (Itoa64 rv @ '':'' @ path, None))"

text \<open>\<open>decode\<close> returns \<open>(path, v, rev, keep, err)\<close>.\<close>

definition decode :: "string \<Rightarrow> string \<times> string \<times> int \<times> bool \<times> error option" where
  "decode mutation =
     (let cm = Split2 mutation (CHR '':'') in
      if length cm \<noteq> 2 then ('''', '''', 0, False, Some ErrBadMutation)
      else
        let (rv, err) = Atoi64 (cm ! 0) in
        if err \<noteq> None then ('''', '''', rv, False, err)
        else
          let kv = Split2 (cm ! 1) (CHR ''='');
              err = checkPath (kv ! 0)
          in if err \<noteq> None then ('''', '''', rv, False, err)
             else if length kv = 1 then (kv ! 0, '''', rv, False, None)
             else (kv ! 0, kv ! 1, rv, True, None))"

text \<open>The error result of \<open>decode\<close>.\<close>

definition decode_err :: "string \<Rightarrow> error option" where
  "decode_err m = snd (snd (snd (snd (decode m))))"

subsection \<open>Events, operations and watches\<close>

text \<open>
  Modelled from the spec: the \<open>Event\<close> struct is declared outside store.go. The
  specification (section 3) lists its fields: \<open>seqn, path, body, rev, mutation, err,
  getter\<close>; the getter is the tree at that version. The type \<open>'n\<close> is the type of
  trees (\<open>node\<close>), which store.go only passes around.
\<close>

record 'n Event =
  Seqn :: int
  Path :: string
  Body :: string
  Rev :: int
  Mut :: string
  Err :: "error option"
  Getter :: "'n option"

text \<open>The zero value \<open>Event{}\<close>, which \<open>var ev Event\<close> and a read of a missing map key give.\<close>

definition zeroEvent :: "'n Event" where
  "zeroEvent = \<lparr>Seqn = 0, Path = '''', Body = '''', Rev = 0, Mut = '''', Err = None, Getter = None\<rparr>"

record Op =
  OpSeqn :: int
  OpMut :: string

text \<open>
  A \<open>Watch\<close> is shared by reference between its creator, the list of live watches and
  the notices. Its fields that never change are in the record, with \<open>wid\<close>, the address
  of the object (which also stands for its channel \<open>c\<close>). The fields that change, the
  flag \<open>stopped\<close> and the content of the channel \<open>shutdown\<close> (of capacity 1), are kept by
  address in the state below. The glob is its \<open>Match\<close> function.
\<close>

record Watch =
  wid :: nat
  glob :: "string \<Rightarrow> bool"
  wfrom :: int
  wto :: int

text \<open>
  The \<open>Store\<close>: its fields \<open>watches\<close>, \<open>todo\<close>, \<open>state\<close> (the version and the root),
  \<open>head\<close>, \<open>log\<close> and \<open>notices\<close>; the mutable part of the watch objects
  (\<open>stopped\<close>: the addresses whose flag is set, \<open>shutdown\<close>: the addresses whose
  shutdown channel holds a signal); and three history variables: \<open>applied\<close>, the events
  that \<open>values.apply\<close> returned, in order; \<open>sent\<close>, the events sent on watch channels,
  in order, each with the address of its watch; \<open>halted\<close>, set when \<open>process\<close> has
  returned.

  \<open>todo\<close> is a \<open>container/heap\<close> ordered by \<open>Seqn\<close>. It is modelled as a priority
  queue: a list kept in ascending order of \<open>Seqn\<close>, whose first element is the top.
  The order in which the library heap yields operations of equal \<open>Seqn\<close> is not
  modelled.
\<close>

record 'n Store =
  watches :: "Watch list"
  todo :: "Op list"
  state :: "int \<times> 'n"
  head :: int
  log :: "int \<rightharpoonup> 'n Event"
  notices :: "(Watch \<times> 'n Event) list"
  stopped :: "nat set"
  shutdown :: "nat set"
  applied :: "'n Event list"
  sent :: "(nat \<times> 'n Event) list"
  halted :: bool

definition New :: "'n \<Rightarrow> 'n Store" where
  "New emptyDir =
     \<lparr>watches = [], todo = [], state = (0, emptyDir), head = 0, log = Map.empty,
      notices = [], stopped = {}, shutdown = {}, applied = [], sent = [], halted = False\<rparr>"

definition heap_Push :: "Op list \<Rightarrow> Op \<Rightarrow> Op list" where
  "heap_Push h a = insort_key OpSeqn a h"

text \<open>
  Modelled from the spec: \<open>node.apply\<close> is outside store.go. The specification
  (section 3, Event) says that the \<open>seqn\<close> of the event equals the applied sequence
  number; the new tree and the other fields of the event are left to the parameter
  \<open>tr\<close>, the tree's own computation.
\<close>

definition node_apply ::
  "('n \<Rightarrow> int \<Rightarrow> string \<Rightarrow> 'n \<times> 'n Event) \<Rightarrow> 'n \<Rightarrow> int \<Rightarrow> string \<Rightarrow> 'n \<times> 'n Event" where
  "node_apply tr values seqn mut = (let (values', ev) = tr values seqn mut in (values', ev\<lparr>Seqn := seqn\<rparr>))"

subsection \<open>Stopping a watch\<close>

text \<open>\<open>Stop\<close> sends on \<open>shutdown\<close> without blocking: a second signal is dropped.\<close>

definition Stop :: "Watch \<Rightarrow> 'n Store \<Rightarrow> 'n Store" where
  "Stop wt s = s\<lparr>shutdown := insert (wid wt) (shutdown s)\<rparr>"

text \<open>\<open>isStopped\<close> returns its answer and moves a pending signal into the flag.\<close>

definition isStopped :: "Watch \<Rightarrow> 'n Store \<Rightarrow> bool \<times> 'n Store" where
  "isStopped w s =
     (if wid w \<in> stopped s then (True, s)
      else if wid w \<in> shutdown s
        then (True, s\<lparr>stopped := insert (wid w) (stopped s), shutdown := shutdown s - {wid w}\<rparr>)
      else (False, s))"

subsection \<open>Matching an event against watches\<close>

text \<open>
  \<open>notify\<close>: the loop over \<open>ws\<close>, with \<open>nwatches[0:i]\<close> as the accumulator \<open>nw\<close>.
\<close>

fun notify_loop :: "'n Event \<Rightarrow> Watch list \<Rightarrow> Watch list \<Rightarrow> 'n Store \<Rightarrow> Watch list \<times> 'n Store" where
  "notify_loop e [] nw s = (nw, s)"
| "notify_loop e (w # ws) nw s =
     (let (st, s1) = isStopped w s in
      if st then notify_loop e ws nw s1
      else if wto w \<le> Seqn e then notify_loop e ws nw s1
      else
        let last = wto w - 1;
            nw1 = (if Seqn e \<noteq> last then nw @ [w] else nw)
        in if Seqn e < wfrom w then notify_loop e ws nw1 s1
           else if glob w (Path e)
             then notify_loop e ws nw1 (s1\<lparr>notices := notices s1 @ [(w, e)]\<rparr>)
           else notify_loop e ws nw1 s1)"

definition notify :: "'n Event \<Rightarrow> Watch list \<Rightarrow> 'n Store \<Rightarrow> Watch list \<times> 'n Store" where
  "notify e ws s = notify_loop e ws [] s"

subsection \<open>The dispatcher\<close>

text \<open>
  One iteration of the loop of \<open>process\<close> takes one branch of the \<open>select\<close>. The
  branch taken is the input of the iteration: an operation received on \<open>ops\<close>, or
  \<open>ops\<close> found closed; a watch received on \<open>watchCh\<close>; a sequence number received on
  \<open>cleanCh\<close>; the version sent on \<open>seqns\<close>; the number of watches sent on
  \<open>watches\<close>; the first notice sent on the channel of its watch; a flush. The values
  that the two queries send leave the store as it is and are not recorded.
\<close>

datatype input =
    RecvOp Op
  | OpsClosed
  | RecvWatch Watch
  | RecvClean int
  | SendSeqn
  | SendWatches
  | SendNotice
  | RecvFlush

text \<open>The loop that drops the notices of stopped watches from the front of the queue.\<close>

fun skip_stopped :: "(Watch \<times> 'n Event) list \<Rightarrow> 'n Store \<Rightarrow> 'n Store" where
  "skip_stopped [] s = s\<lparr>notices := []\<rparr>"
| "skip_stopped ((w, e) # ns) s =
     (let (st, s1) = isStopped w s in
      if st then skip_stopped ns s1 else s1\<lparr>notices := (w, e) # ns\<rparr>)"

text \<open>
  The two loops of a registration: the first empties \<open>ws\<close> when the watch starts below
  \<open>head\<close>, the second replays the log from \<open>n\<close> up to the version. A read of the log
  at a missing key gives the zero event.
\<close>

function trim_loop :: "int \<Rightarrow> Watch list \<Rightarrow> int \<Rightarrow> int \<times> Watch list" where
  "trim_loop n ws h = (if ws \<noteq> [] \<and> n < h then trim_loop (n + 1) [] h else (n, ws))"
  by pat_completeness auto
termination
  by (relation "measure (\<lambda>(n, ws, h). length ws)") auto

definition log_at :: "'n Store \<Rightarrow> int \<Rightarrow> 'n Event" where
  "log_at s n = (case log s n of None \<Rightarrow> zeroEvent | Some e \<Rightarrow> e)"

function backfill :: "int \<Rightarrow> int \<Rightarrow> Watch list \<Rightarrow> 'n Store \<Rightarrow> Watch list \<times> 'n Store" where
  "backfill ver n ws s =
     (if ws \<noteq> [] \<and> n \<le> ver
      then backfill ver (n + 1) (fst (notify (log_at s n) ws s)) (snd (notify (log_at s n) ws s))
      else (ws, s))"
  by pat_completeness auto
termination
  by (relation "measure (\<lambda>(ver, n, ws, s). nat (ver + 1 - n))") auto

text \<open>
  The loop of \<open>Clean\<close>: delete the entry at \<open>head\<close> and advance, while \<open>head \<le> seqn\<close>.
  \<open>st.head++\<close> is an addition on \<open>int64\<close>: at the greatest value it wraps to the least one.
  For \<open>seqn = MaxInt64\<close> the condition then holds for ever and the loop does not end; not
  returning is the value \<open>None\<close>.
\<close>

definition MaxInt64 :: int where
  "MaxInt64 = 2 ^ 63 - 1"

definition incr64 :: "int \<Rightarrow> int" where
  "incr64 i = (if i = MaxInt64 then - (2 ^ 63) else i + 1)"

partial_function (option) clean_loop :: "int \<Rightarrow> 'n Store \<Rightarrow> 'n Store option" where
  "clean_loop seqn s =
     (if head s \<le> seqn
      then clean_loop seqn (s\<lparr>log := (log s)(head s := None), head := incr64 (head s)\<rparr>)
      else Some s)"

declare trim_loop.simps [simp del] backfill.simps [simp del]

text \<open>
  The loop that applies the operations that can be applied. Its variables are the
  locals \<open>ver\<close>, \<open>values\<close> and \<open>ev\<close>; the fourth argument is \<open>st.todo\<close>, which the
  store in the last argument holds as well. The result is the final locals and store.
\<close>

fun drain ::
  "('n \<Rightarrow> int \<Rightarrow> string \<Rightarrow> 'n \<times> 'n Event) \<Rightarrow> bool \<Rightarrow> int \<Rightarrow> 'n \<Rightarrow> 'n Event \<Rightarrow> Op list \<Rightarrow> 'n Store
     \<Rightarrow> int \<times> 'n \<times> 'n Event \<times> 'n Store" where
  "drain tr flush ver values ev [] s = (ver, values, ev, s)"
| "drain tr flush ver values ev (t # rest) s =
     (let ver1 = (if flush \<and> ver < OpSeqn t then OpSeqn t - 1 else ver) in
      if ver1 + 1 < OpSeqn t then (ver1, values, ev, s)
      else
        let s1 = s\<lparr>todo := rest\<rparr> in
        if OpSeqn t < ver1 + 1 then drain tr flush ver1 values ev rest s1
        else
          let values' = fst (node_apply tr values (OpSeqn t) (OpMut t));
              ev' = snd (node_apply tr values (OpSeqn t) (OpMut t));
              s2 = s1\<lparr>state := (Seqn ev', values'), applied := applied s1 @ [ev']\<rparr>;
              ver2 = Seqn ev'
          in if \<not> flush
             then
               let s3 = s2\<lparr>log := (log s2)(Seqn ev' \<mapsto> ev')\<rparr>;
                   r = notify ev' (watches s3) s3
               in drain tr flush ver2 values' ev' rest ((snd r)\<lparr>watches := fst r\<rparr>)
             else drain tr flush ver2 values' ev' rest s2)"

text \<open>What follows the \<open>select\<close>: the drain, and the final event of a flush.\<close>

definition after_select ::
  "('n \<Rightarrow> int \<Rightarrow> string \<Rightarrow> 'n \<times> 'n Event) \<Rightarrow> bool \<Rightarrow> int \<Rightarrow> 'n \<Rightarrow> 'n Store \<Rightarrow> 'n Store" where
  "after_select tr flush ver values s =
     (case drain tr flush ver values zeroEvent (todo s) s of
        (ver', values', ev, s1) \<Rightarrow>
          if flush
          then
            let s2 = s1\<lparr>log := (log s1)(Seqn ev \<mapsto> ev)\<rparr>;
                r = notify ev (watches s2) s2
            in (snd r)\<lparr>watches := fst r, head := ver' + 1\<rparr>
          else s1)"

text \<open>
  One iteration. \<open>None\<close>: the branch cannot be taken (the send of a notice when the
  queue is empty, where the channel \<open>nc\<close> is nil), or \<open>process\<close> has returned, or the
  iteration does not end (the loop of \<open>Clean\<close>). When
  \<open>ops\<close> is closed \<open>process\<close> returns and closes the channels of the live watches;
  the model records the return in \<open>halted\<close>.
\<close>

definition iteration ::
  "('n \<Rightarrow> int \<Rightarrow> string \<Rightarrow> 'n \<times> 'n Event) \<Rightarrow> input \<Rightarrow> 'n Store \<Rightarrow> 'n Store option" where
  "iteration tr i s0 =
     (if halted s0 then None
      else
        let ver = fst (state s0);
            values = snd (state s0);
            s = skip_stopped (notices s0) s0
        in case i of
             RecvOp a \<Rightarrow>
               Some (after_select tr False ver values
                 (if ver < OpSeqn a then s\<lparr>todo := heap_Push (todo s) a\<rparr> else s))
           | OpsClosed \<Rightarrow> Some (s\<lparr>halted := True\<rparr>)
           | RecvWatch w \<Rightarrow>
               let nws = trim_loop (wfrom w) [w] (head s);
                   r = backfill ver (fst nws) (snd nws) s
               in Some (after_select tr False ver values ((snd r)\<lparr>watches := watches (snd r) @ fst r\<rparr>))
           | RecvClean seqn \<Rightarrow>
               (case clean_loop seqn s of
                  None \<Rightarrow> None
                | Some s1 \<Rightarrow> Some (after_select tr False ver values s1))
           | SendSeqn \<Rightarrow> Some (after_select tr False ver values s)
           | SendWatches \<Rightarrow> Some (after_select tr False ver values s)
           | SendNotice \<Rightarrow>
               (case notices s of
                  [] \<Rightarrow> None
                | (w, e) # ns \<Rightarrow>
                    Some (after_select tr False ver values (s\<lparr>sent := sent s @ [(wid w, e)], notices := ns\<rparr>)))
           | RecvFlush \<Rightarrow> Some (after_select tr True ver values s))"

text \<open>
  A run of the store: iterations of the dispatcher, and calls of \<open>Stop\<close> by other
  goroutines. A call of \<open>Stop\<close> is placed between two iterations; one that arrives during
  an iteration is not modelled.
\<close>

datatype step = Select input | CallStop Watch

fun run :: "('n \<Rightarrow> int \<Rightarrow> string \<Rightarrow> 'n \<times> 'n Event) \<Rightarrow> step list \<Rightarrow> 'n Store \<Rightarrow> 'n Store option" where
  "run tr [] s = Some s"
| "run tr (Select i # xs) s = (case iteration tr i s of None \<Rightarrow> None | Some s' \<Rightarrow> run tr xs s')"
| "run tr (CallStop w # xs) s = run tr xs (Stop w s)"

subsection \<open>Registering a watch\<close>

text \<open>
  \<open>watchOn\<close> hands the new watch to the dispatcher (\<open>st.watchCh <- wt\<close>), which takes it
  in an iteration of its own, and then reads \<open>st.head\<close>. The read is modelled at the end
  of that iteration. \<open>None\<close>: the send blocks for ever, because \<open>process\<close> has returned.
  The argument \<open>ch\<close> is the channel made by the caller; it is the address of the watch.
\<close>

definition watchOn ::
  "('n \<Rightarrow> int \<Rightarrow> string \<Rightarrow> 'n \<times> 'n Event) \<Rightarrow> (string \<Rightarrow> bool) \<Rightarrow> nat \<Rightarrow> int \<Rightarrow> int \<Rightarrow> 'n Store
     \<Rightarrow> ((Watch option \<times> error option) \<times> 'n Store) option" where
  "watchOn tr g ch from to s =
     (if from < 1 then Some ((None, Some ErrTooLate), s)
      else
        let wt = \<lparr>wid = ch, glob = g, wfrom = from, wto = to\<rparr> in
        case iteration tr (RecvWatch wt) s of
          None \<Rightarrow> None
        | Some s' \<Rightarrow>
            if from < head s' then Some ((None, Some ErrTooLate), Stop wt s')
            else Some ((Some wt, None), s'))"

definition NewWatchFrom ::
  "('n \<Rightarrow> int \<Rightarrow> string \<Rightarrow> 'n \<times> 'n Event) \<Rightarrow> (string \<Rightarrow> bool) \<Rightarrow> nat \<Rightarrow> int \<Rightarrow> 'n Store
     \<Rightarrow> ((Watch option \<times> error option) \<times> 'n Store) option" where
  "NewWatchFrom tr g ch from s = watchOn tr g ch from MaxInt64 s"

text \<open>
  \<open>Wait\<close> returns the channel of the watch, or the error. The glob \<open>Any\<close> is compiled
  outside store.go and is a parameter here.
\<close>

definition Wait ::
  "('n \<Rightarrow> int \<Rightarrow> string \<Rightarrow> 'n \<times> 'n Event) \<Rightarrow> (string \<Rightarrow> bool) \<Rightarrow> nat \<Rightarrow> int \<Rightarrow> 'n Store
     \<Rightarrow> ((nat option \<times> error option) \<times> 'n Store) option" where
  "Wait tr any ch seqn s =
     (case watchOn tr any ch seqn (seqn + 1) s of
        None \<Rightarrow> None
      | Some ((w, err), s') \<Rightarrow>
          if err \<noteq> None then Some ((None, err), s')
          else Some ((map_option wid w, None), s'))"

subsection \<open>Notions used in the statements\<close>

text \<open>
  A watch is stopped, as \<open>isStopped\<close> sees it, when its flag is set or a signal waits
  in its shutdown channel.
\<close>

definition stopped_now :: "'n Store \<Rightarrow> Watch \<Rightarrow> bool" where
  "stopped_now s w = (wid w \<in> stopped s \<or> wid w \<in> shutdown s)"

text \<open>
  The watch objects after \<open>isStopped\<close> has been called on the watches at the addresses
  \<open>ids\<close>: pending signals of watches not yet flagged have moved into the flag.
\<close>

definition settle :: "nat set \<Rightarrow> 'n Store \<Rightarrow> 'n Store" where
  "settle ids s =
     s\<lparr>stopped := stopped s \<union> (shutdown s \<inter> ids), shutdown := shutdown s - (ids - stopped s)\<rparr>"

text \<open>
  The treatment of one watch \<open>w\<close> for an event \<open>e\<close> in the words of the specification
  (section 4.5, steps 1 to 4), as the pair (\<open>w\<close> stays in the live set, a notice
  \<open>(w, e)\<close> is enqueued): a stopped watch or one with \<open>e.seqn \<ge> w.to\<close> is dropped
  without notice; otherwise \<open>w\<close> leaves the live set after this event when
  \<open>e.seqn = w.to - 1\<close>; there is no notice when \<open>e.seqn < w.from\<close>; otherwise there
  is one when the glob matches the path.
\<close>

definition matching :: "'n Event \<Rightarrow> 'n Store \<Rightarrow> Watch \<Rightarrow> bool \<times> bool" where
  "matching e s w =
     (if stopped_now s w \<or> wto w \<le> Seqn e then (False, False)
      else if Seqn e < wfrom w then (Seqn e \<noteq> wto w - 1, False)
      else (Seqn e \<noteq> wto w - 1, glob w (Path e)))"

definition stays :: "'n Event \<Rightarrow> 'n Store \<Rightarrow> Watch \<Rightarrow> bool" where
  "stays e s w = fst (matching e s w)"

definition noticed :: "'n Event \<Rightarrow> 'n Store \<Rightarrow> Watch \<Rightarrow> bool" where
  "noticed e s w = snd (matching e s w)"

text \<open>The version of the store, \<open>st.state.ver\<close>.\<close>

definition version :: "'n Store \<Rightarrow> int" where
  "version s = fst (state s)"

text \<open>
  Every event of the log is stored under its own sequence number, which is between 0 and
  the version.
\<close>

definition log_bounded :: "'n Store \<Rightarrow> bool" where
  "log_bounded s = (\<forall>n e. log s n = Some e \<longrightarrow> Seqn e = n \<and> 0 \<le> n \<and> n \<le> version s)"

text \<open>No entry of the log is below \<open>head\<close>.\<close>

definition log_above_head :: "'n Store \<Rightarrow> bool" where
  "log_above_head s = (\<forall>n e. log s n = Some e \<longrightarrow> head s \<le> n)"

text \<open>
  A run trims only what has been applied when it has no flush and every \<open>Clean(k)\<close> is
  received with \<open>k\<close> at most the version of that moment.
\<close>

fun trims_applied :: "('n \<Rightarrow> int \<Rightarrow> string \<Rightarrow> 'n \<times> 'n Event) \<Rightarrow> step list \<Rightarrow> 'n Store \<Rightarrow> bool" where
  "trims_applied tr [] s = True"
| "trims_applied tr (CallStop w # xs) s = trims_applied tr xs (Stop w s)"
| "trims_applied tr (Select i # xs) s =
     (i \<noteq> RecvFlush
      \<and> (case i of RecvClean k \<Rightarrow> k \<le> version s | _ \<Rightarrow> True)
      \<and> (case iteration tr i s of None \<Rightarrow> True | Some s' \<Rightarrow> trims_applied tr xs s'))"


text \<open>
  The events applied so far have strictly ascending sequence numbers, none above the
  version.
\<close>

definition applied_ascending :: "'n Store \<Rightarrow> bool" where
  "applied_ascending s =
     (sorted_wrt (<) (map Seqn (applied s)) \<and> (\<forall>e \<in> set (applied s). Seqn e \<le> version s))"

definition store_inv :: "'n Store \<Rightarrow> bool" where
  "store_inv s = (0 \<le> version s \<and> log_bounded s \<and> applied_ascending s)"

definition head_inv :: "'n Store \<Rightarrow> bool" where
  "head_inv s = (head s \<le> version s + 1 \<and> log_above_head s)"

text \<open>
  The fields that neither the matching of watches nor the stopping of a watch touches.
\<close>

definition core ::
  "'n Store \<Rightarrow> (int \<times> 'n) \<times> (int \<rightharpoonup> 'n Event) \<times> 'n Event list \<times> int \<times> Op list \<times> (nat \<times> 'n Event) list \<times> bool" where
  "core s = (state s, log s, applied s, head s, todo s, sent s, halted s)"

text \<open>
  The invariant of the log as the specification states it: every event of the log has
  \<open>head \<le> seqn \<le> version\<close>, and no entry below \<open>head\<close> is present.
\<close>

definition log_between_head_and_version :: "'n Store \<Rightarrow> bool" where
  "log_between_head_and_version s =
     ((\<forall>n e. log s n = Some e \<longrightarrow> head s \<le> Seqn e \<and> Seqn e \<le> version s)
      \<and> (\<forall>n. n < head s \<longrightarrow> log s n = None))"

text \<open>
  The final event of a flush that takes the store from \<open>s\<close> to \<open>s'\<close>: the last event
  applied by the flush, or the zero event when it applied none.
\<close>

definition final_event :: "'n Store \<Rightarrow> 'n Store \<Rightarrow> 'n Event" where
  "final_event s s' =
     (if length (applied s') = length (applied s) then zeroEvent else last (applied s'))"

subsection \<open>A tree for concrete runs\<close>

text \<open>
  Modelled from the spec: the tree is outside store.go. Concrete runs below use this
  instance, which keeps no tree: the event of a mutation carries what \<open>decode\<close> reads in
  it (path, body, error), with the revision of a set equal to the sequence number and the
  revision \<open>Missing\<close> for a delete, as section 4.2 of the specification has it for
  successful applications. The conditional check on revisions is not modelled. The
  theorems about the store hold for every tree function \<open>tr\<close>.
\<close>

definition flat_apply :: "unit \<Rightarrow> int \<Rightarrow> string \<Rightarrow> unit \<times> unit Event" where
  "flat_apply vs seqn mut =
     (case decode mut of
        (path, body, rv, keep, err) \<Rightarrow>
          (vs, \<lparr>Seqn = seqn, Path = path, Body = body, Rev = (if keep then seqn else 0),
                Mut = mut, Err = err, Getter = Some vs\<rparr>))"

text \<open>The glob \<open>/**\<close>, which matches every path, and two pending operations.\<close>

definition any_glob :: "string \<Rightarrow> bool" where
  "any_glob p = True"

definition op5 :: Op where
  "op5 = \<lparr>OpSeqn = 5, OpMut = ''-1:/a=x''\<rparr>"

definition op8 :: Op where
  "op8 = \<lparr>OpSeqn = 8, OpMut = ''-1:/b=y''\<rparr>"

text \<open>The first two operations of scenario 2 of the specification.\<close>

definition op1 :: Op where
  "op1 = \<lparr>OpSeqn = 1, OpMut = ''0:/a=x''\<rparr>"

definition op2 :: Op where
  "op2 = \<lparr>OpSeqn = 2, OpMut = ''1:/a=y''\<rparr>"

text \<open>
  The watch that \<open>NewWatch(st, Any)\<close> registers on a new store: from the version plus 1,
  without end.
\<close>

definition watch_all :: Watch where
  "watch_all = \<lparr>wid = 1, glob = any_glob, wfrom = 1, wto = MaxInt64\<rparr>"

text \<open>
  Nothing in the store refers to the watch at the address \<open>ch\<close>: it is not live, no
  notice is queued for it, and no event has been sent on its channel.
\<close>

definition unwatched :: "nat \<Rightarrow> 'n Store \<Rightarrow> bool" where
  "unwatched ch s =
     (ch \<notin> wid ` set (watches s) \<and> ch \<notin> wid ` fst ` set (notices s) \<and> ch \<notin> fst ` set (sent s))"


section \<open>Properties of the codec\<close>

subsection \<open>Decimal numbers\<close>

lemma charPat_not_special:
  "\<not> charPat (CHR ''/'')" "\<not> charPat (CHR '':'')" "\<not> charPat (CHR ''='')"
  by (simp_all add: charPat_def)

lemma below_ten: "d < 10 \<Longrightarrow> d \<in> {0, 1, 2, 3, 4, 5, 6, 7, 8, 9::nat}"
  by auto

lemma is_digit_digit: "d < 10 \<Longrightarrow> is_digit (digit d)"
  by (drule below_ten) (auto simp: is_digit_def digit_def)

lemma of_char_digit: "d < 10 \<Longrightarrow> of_char (digit d) - 48 = d"
  by (drule below_ten) (auto simp: digit_def)

lemma uitoa_loop_app: "uitoa_loop u buf = uitoa_loop u [] @ buf"
proof (induction u arbitrary: buf rule: less_induct)
  case (less u)
  show ?case
  proof (cases "0 < u")
    case True
    then have lt: "u div 10 < u" by simp
    have "uitoa_loop u buf = uitoa_loop (u div 10) (digit (u mod 10) # buf)"
      using True by (simp add: uitoa_loop.simps [of u])
    also have "\<dots> = uitoa_loop (u div 10) [] @ digit (u mod 10) # buf"
      by (rule less.IH [OF lt])
    finally have a: "uitoa_loop u buf = uitoa_loop (u div 10) [] @ digit (u mod 10) # buf" .
    have "uitoa_loop u [] = uitoa_loop (u div 10) [digit (u mod 10)]"
      using True by (simp add: uitoa_loop.simps [of u])
    also have "\<dots> = uitoa_loop (u div 10) [] @ [digit (u mod 10)]"
      by (rule less.IH [OF lt])
    finally show ?thesis using a by simp
  next
    case False
    then show ?thesis by (simp add: uitoa_loop.simps [of 0])
  qed
qed

lemma uitoa_loop_step:
  "0 < u \<Longrightarrow> uitoa_loop u [] = uitoa_loop (u div 10) [] @ [digit (u mod 10)]"
  by (simp add: uitoa_loop.simps [of u "[]"] uitoa_loop_app [of "u div 10" "[digit (u mod 10)]"])

lemma uitoa_loop_zero: "uitoa_loop 0 buf = buf"
  by (simp add: uitoa_loop.simps [of 0])

lemma btoui_loop_digits:
  "u < 2 ^ 64 \<Longrightarrow> btoui_loop (uitoa_loop u [] @ cs) 0 = btoui_loop cs u"
proof (induction u arbitrary: cs rule: less_induct)
  case (less u)
  show ?case
  proof (cases "0 < u")
    case True
    then have lt: "u div 10 < u" by simp
    have small: "u div 10 < 2 ^ 64" using less.prems lt by linarith
    have "u div 10 \<le> (2 ^ 64 - 1) div 10"
      using less.prems by (intro div_le_mono) simp
    then have cut: "\<not> cutoff64 \<le> u div 10" by (simp add: cutoff64_def)
    have "btoui_loop (uitoa_loop u [] @ cs) 0
          = btoui_loop (uitoa_loop (u div 10) [] @ digit (u mod 10) # cs) 0"
      by (simp add: uitoa_loop_step [OF True])
    also have "\<dots> = btoui_loop (digit (u mod 10) # cs) (u div 10)"
      by (rule less.IH [OF lt small])
    also have "\<dots> = btoui_loop cs (u div 10 * 10 + u mod 10)"
    proof -
      have "\<not> 2 ^ 64 \<le> u div 10 * 10 + u mod 10" using less.prems by simp
      then show ?thesis
        using cut by (simp only: btoui_loop.simps Let_def is_digit_digit of_char_digit
            mod_less_divisor zero_less_numeral not_True_eq_False if_False not_False_eq_True if_True)
    qed
    also have "\<dots> = btoui_loop cs u" by simp
    finally show ?thesis .
  next
    case False
    then show ?thesis by (simp add: uitoa_loop_zero)
  qed
qed

lemma uitoa_loop_nonempty: "0 < u \<Longrightarrow> uitoa_loop u [] \<noteq> []"
  by (simp add: uitoa_loop_step)

lemma Atoui64_Uitoa64: "u < 2 ^ 64 \<Longrightarrow> Atoui64 (Uitoa64 u) = (u, None)"
proof (cases "u = 0")
  case True
  then show ?thesis
    by (simp add: Atoui64_def Uitoa64_def is_digit_def cutoff64_def)
next
  case False
  assume "u < 2 ^ 64"
  then have "btoui_loop (uitoa_loop u [] @ []) 0 = btoui_loop [] u"
    by (rule btoui_loop_digits)
  with False show ?thesis
    by (simp add: Atoui64_def Uitoa64_def uitoa_loop_nonempty)
qed

lemma uitoa_loop_chars: "c \<in> set (uitoa_loop u []) \<Longrightarrow> is_digit c"
proof (induction u rule: less_induct)
  case (less u)
  show ?case
  proof (cases "0 < u")
    case True
    then have lt: "u div 10 < u" by simp
    from less.prems have "c \<in> set (uitoa_loop (u div 10) []) \<or> c = digit (u mod 10)"
      by (auto simp add: uitoa_loop_step [OF True])
    then show ?thesis using less.IH [OF lt] by (auto simp: is_digit_digit)
  next
    case False
    with less.prems show ?thesis by (simp add: uitoa_loop_zero)
  qed
qed

lemma Uitoa64_chars: "c \<in> set (Uitoa64 u) \<Longrightarrow> is_digit c"
  by (auto simp: Uitoa64_def is_digit_def dest: uitoa_loop_chars split: if_splits)

lemma Uitoa64_nonempty: "Uitoa64 u \<noteq> []"
  by (simp add: Uitoa64_def uitoa_loop_nonempty)

lemma Uitoa64_hd: "hd (Uitoa64 u) \<noteq> CHR ''-'' \<and> hd (Uitoa64 u) \<noteq> CHR ''+''"
proof -
  have "hd (Uitoa64 u) \<in> set (Uitoa64 u)" by (simp add: Uitoa64_nonempty)
  then have "is_digit (hd (Uitoa64 u))" by (rule Uitoa64_chars)
  then show ?thesis by (auto simp: is_digit_def)
qed

lemma Itoa64_chars: "c \<in> set (Itoa64 i) \<Longrightarrow> is_digit c \<or> c = CHR ''-''"
  by (auto simp: Itoa64_def is_digit_def dest: Uitoa64_chars split: if_splits)

lemma Itoa64_no_colon: "CHR '':'' \<notin> set (Itoa64 i)"
  using Itoa64_chars [of "CHR '':''" i] by (auto simp: is_digit_def)

lemma Atoi64_Itoa64:
  assumes "is_int64 i"
  shows "Atoi64 (Itoa64 i) = (i, None)"
proof -
  consider "i = 0" | "i < 0" | "0 < i" by linarith
  then show ?thesis
  proof cases
    case 1
    then show ?thesis
      by (simp add: Itoa64_def Atoi64_def Atoui64_def is_digit_def cutoff64_def)
  next
    case 2
    define u where "u = nat (- i)"
    have u: "u \<le> 2 ^ 63" "int u = - i" using assms 2 by (auto simp: u_def is_int64_def)
    then have "u < 2 ^ 64" by simp
    then have p: "Atoui64 (Uitoa64 u) = (u, None)" by (rule Atoui64_Uitoa64)
    have "Itoa64 i = CHR ''-'' # Uitoa64 u" using 2 by (simp add: Itoa64_def u_def)
    then show ?thesis using p u by (simp add: Atoi64_def)
  next
    case 3
    define u where "u = nat i"
    have u: "u < 2 ^ 63" "int u = i" using assms 3 by (auto simp: u_def is_int64_def)
    then have "u < 2 ^ 64" by simp
    then have p: "Atoui64 (Uitoa64 u) = (u, None)" by (rule Atoui64_Uitoa64)
    obtain c cs where cs: "Uitoa64 u = c # cs" using Uitoa64_nonempty [of u] by (cases "Uitoa64 u") auto
    then have "c \<noteq> CHR ''-''" "c \<noteq> CHR ''+''" using Uitoa64_hd [of u] by auto
    moreover have "Itoa64 i = Uitoa64 u" using 3 by (simp add: Itoa64_def u_def)
    ultimately show ?thesis using p u cs by (simp add: Atoi64_def)
  qed
qed

subsection \<open>Paths and splitting\<close>

lemma segs_chars:
  "(afterSlash cs \<longrightarrow> (\<forall>c \<in> set cs. c = CHR ''/'' \<or> charPat c))
   \<and> (inSegment cs \<longrightarrow> (\<forall>c \<in> set cs. c = CHR ''/'' \<or> charPat c))"
  by (induction cs) auto

lemma path_chars:
  assumes "pathRe_MatchString k" and "c \<in> set k"
  shows "c = CHR ''/'' \<or> charPat c"
  using assms segs_chars by (cases k) (auto simp: pathRe_MatchString_def)

lemma path_no_eq: "pathRe_MatchString k \<Longrightarrow> CHR ''='' \<notin> set k"
  using path_chars [of k "CHR ''=''"] by (auto simp: charPat_not_special)

lemma cutSep_absent: "sep \<notin> set s \<Longrightarrow> cutSep sep s = None"
  by (induction s) auto

lemma cutSep_first: "sep \<notin> set a \<Longrightarrow> cutSep sep (a @ sep # b) = Some (a, b)"
  by (induction a) auto

lemma cutSep_Some: "cutSep sep s = Some (a, b) \<Longrightarrow> s = a @ sep # b \<and> sep \<notin> set a"
  by (induction s arbitrary: a) (auto split: if_splits option.splits)

lemma Split2_absent: "sep \<notin> set s \<Longrightarrow> Split2 s sep = [s]"
  by (simp add: Split2_def cutSep_absent)

lemma Split2_first: "sep \<notin> set a \<Longrightarrow> Split2 (a @ sep # b) sep = [a, b]"
  by (simp add: Split2_def cutSep_first)

lemma inSegment_run:
  "\<forall>c \<in> set sg. charPat c \<Longrightarrow> inSegment (sg @ r) = inSegment r"
  by (induction sg) (auto simp: charPat_not_special)

lemma afterSlash_run:
  "sg \<noteq> [] \<Longrightarrow> \<forall>c \<in> set sg. charPat c \<Longrightarrow> afterSlash (sg @ r) = inSegment r"
  by (cases sg) (auto simp: inSegment_run)

lemma inSegment_segments:
  "\<forall>sg \<in> set segs. sg \<noteq> [] \<and> (\<forall>c \<in> set sg. charPat c)
   \<Longrightarrow> inSegment (concat (map (\<lambda>sg. CHR ''/'' # sg) segs))"
  by (induction segs) (auto simp: afterSlash_run)

lemma segments_of:
  "(afterSlash cs \<longrightarrow>
      (\<exists>segs. segs \<noteq> [] \<and> (\<forall>sg \<in> set segs. sg \<noteq> [] \<and> (\<forall>c \<in> set sg. charPat c))
         \<and> CHR ''/'' # cs = concat (map (\<lambda>sg. CHR ''/'' # sg) segs)))
   \<and> (inSegment cs \<longrightarrow>
      (\<exists>sg segs. (\<forall>c \<in> set sg. charPat c)
         \<and> (\<forall>sg \<in> set segs. sg \<noteq> [] \<and> (\<forall>c \<in> set sg. charPat c))
         \<and> cs = sg @ concat (map (\<lambda>sg. CHR ''/'' # sg) segs)))"
proof (induction cs)
  case Nil
  show ?case by (auto intro: exI [of _ "[]"])
next
  case (Cons c cs)
  have a: "?case" if "True"
  proof (intro conjI impI)
    assume "afterSlash (c # cs)"
    then have c: "charPat c" and "inSegment cs" by auto
    then obtain sg segs where s: "\<forall>c \<in> set sg. charPat c"
        "\<forall>sg \<in> set segs. sg \<noteq> [] \<and> (\<forall>c \<in> set sg. charPat c)"
        "cs = sg @ concat (map (\<lambda>sg. CHR ''/'' # sg) segs)"
      using Cons.IH by blast
    show "\<exists>segs. segs \<noteq> [] \<and> (\<forall>sg \<in> set segs. sg \<noteq> [] \<and> (\<forall>c \<in> set sg. charPat c))
         \<and> CHR ''/'' # c # cs = concat (map (\<lambda>sg. CHR ''/'' # sg) segs)"
      using s c by (intro exI [of _ "(c # sg) # segs"]) auto
  next
    assume i: "inSegment (c # cs)"
    show "\<exists>sg segs. (\<forall>c \<in> set sg. charPat c)
         \<and> (\<forall>sg \<in> set segs. sg \<noteq> [] \<and> (\<forall>c \<in> set sg. charPat c))
         \<and> c # cs = sg @ concat (map (\<lambda>sg. CHR ''/'' # sg) segs)"
    proof (cases "c = CHR ''/''")
      case True
      with i have "afterSlash cs" by simp
      then obtain segs where "segs \<noteq> []"
          "\<forall>sg \<in> set segs. sg \<noteq> [] \<and> (\<forall>c \<in> set sg. charPat c)"
          "CHR ''/'' # cs = concat (map (\<lambda>sg. CHR ''/'' # sg) segs)"
        using Cons.IH by blast
      then show ?thesis using True by (intro exI [where x = "[]"] exI [where x = segs]) auto
    next
      case False
      with i have c: "charPat c" and "inSegment cs" by auto
      then obtain sg segs where s: "\<forall>c \<in> set sg. charPat c"
          "\<forall>sg \<in> set segs. sg \<noteq> [] \<and> (\<forall>c \<in> set sg. charPat c)"
          "cs = sg @ concat (map (\<lambda>sg. CHR ''/'' # sg) segs)"
        using Cons.IH by blast
      show ?thesis using s c by (intro exI [where x = "c # sg"] exI [where x = segs]) auto
    qed
  qed
  then show ?case by simp
qed

lemma path_grammar_iff: "path_grammar p = pathRe_MatchString p"
proof
  assume "path_grammar p"
  then consider "p = ''/''"
    | segs where "segs \<noteq> []" "\<forall>sg \<in> set segs. sg \<noteq> [] \<and> (\<forall>c \<in> set sg. charPat c)"
        "p = concat (map (\<lambda>sg. CHR ''/'' # sg) segs)"
    by (auto simp: path_grammar_def)
  then show "pathRe_MatchString p"
  proof cases
    case 1
    then show ?thesis by (simp add: pathRe_MatchString_def)
  next
    case 2
    then obtain sg rest where sr: "segs = sg # rest" by (cases segs) auto
    with 2 have "sg \<noteq> []" "\<forall>c \<in> set sg. charPat c"
      "\<forall>sg \<in> set rest. sg \<noteq> [] \<and> (\<forall>c \<in> set sg. charPat c)" by auto
    then have "afterSlash (sg @ concat (map (\<lambda>sg. CHR ''/'' # sg) rest))"
      by (simp add: afterSlash_run inSegment_segments)
    then show ?thesis using 2 sr by (simp add: pathRe_MatchString_def)
  qed
next
  assume "pathRe_MatchString p"
  then consider "p = ''/''" | cs where "p = CHR ''/'' # cs" "afterSlash cs"
    by (cases p) (auto simp: pathRe_MatchString_def)
  then show "path_grammar p"
  proof cases
    case 1
    then show ?thesis by (simp add: path_grammar_def)
  next
    case 2
    then show ?thesis using segments_of [of cs] by (auto simp: path_grammar_def)
  qed
qed

lemma checkPath_grammar: "checkPath p = (if path_grammar p then None else Some (BadPathError p))"
  by (simp add: checkPath_def path_grammar_iff)

subsection \<open>Encoding and decoding\<close>

lemma EncodeDel_invalid: "\<not> path_grammar path \<Longrightarrow> EncodeDel path rv = ('''', None)"
  by (simp add: EncodeDel_def checkPath_grammar)

lemma EncodeSet_invalid:
  "\<not> path_grammar path \<Longrightarrow> EncodeSet path body rv = ('''', Some (BadPathError path))"
  by (simp add: EncodeSet_def checkPath_grammar)

text \<open>
  Claim C1: for a path outside the path grammar \<open>EncodeDel\<close> is to return a
  \<open>BadPathError\<close> naming the path and no mutation. The documentation of \<open>EncodeDel\<close>
  says so and \<open>EncodeSet\<close> does it, but \<open>EncodeDel\<close> returns a nil error: at the
  path \<open>a\<close>, which has no leading slash, \<open>EncodeDel\<close> returns the empty mutation and
  no error, where \<open>EncodeSet\<close> returns the \<open>BadPathError\<close>.
\<close>

theorem EncodeDel_loses_BadPath:
  "checkPath ''a'' = Some (BadPathError ''a'')
   \<and> EncodeDel ''a'' 1 = ('''', None)
   \<and> EncodeSet ''a'' ''x'' 1 = ('''', Some (BadPathError ''a''))"
  by (simp add: pathRe_MatchString_def EncodeDel_def EncodeSet_def checkPath_def)

lemma Atoi64_err: "snd (Atoi64 s) = None \<or> (\<exists>e. snd (Atoi64 s) = Some (NumError s e))"
  by (cases s) (auto simp: Atoi64_def Let_def split: prod.splits)

lemma decode_no_colon:
  "CHR '':'' \<notin> set m \<Longrightarrow> decode m = ('''', '''', 0, False, Some ErrBadMutation)"
  by (simp add: decode_def Split2_absent)

lemma decode_bad_rev:
  assumes "CHR '':'' \<notin> set r" and "snd (Atoi64 r) \<noteq> None"
  shows "decode (r @ CHR '':'' # rest) = ('''', '''', fst (Atoi64 r), False, snd (Atoi64 r))"
  using assms by (cases "Atoi64 r") (auto simp: decode_def Split2_first)

lemma decode_good_rev:
  assumes "CHR '':'' \<notin> set r" and "Atoi64 r = (rv, None)"
  shows "decode (r @ CHR '':'' # rest) =
     (let kv = Split2 rest (CHR ''='') in
      if checkPath (kv ! 0) \<noteq> None then ('''', '''', rv, False, checkPath (kv ! 0))
      else if length kv = 1 then (kv ! 0, '''', rv, False, None)
      else (kv ! 0, kv ! 1, rv, True, None))"
  using assms by (simp add: decode_def Split2_first Let_def)

text \<open>
  Claim C9: for every valid path, every \<open>int64\<close> rev and every body (empty or not,
  with or without \<open>=\<close> or \<open>:\<close>), \<open>EncodeSet\<close> and \<open>EncodeDel\<close> return no error,
  decoding the mutation of \<open>EncodeSet\<close> gives back \<open>(path, body, rev, keep = true)\<close>, and
  decoding the mutation of \<open>EncodeDel\<close> gives \<open>(path, "", rev, keep = false)\<close>, both with
  no error.
\<close>

theorem decode_roundtrip:
  assumes "path_grammar path" and "is_int64 rv"
  shows "snd (EncodeSet path body rv) = None
       \<and> decode (fst (EncodeSet path body rv)) = (path, body, rv, True, None)
       \<and> snd (EncodeDel path rv) = None
       \<and> decode (fst (EncodeDel path rv)) = (path, '''', rv, False, None)"
proof -
  have ok: "checkPath path = None" using assms(1) by (simp add: checkPath_grammar)
  have noeq: "CHR ''='' \<notin> set path"
    using assms(1) by (simp add: path_grammar_iff path_no_eq)
  have at: "Atoi64 (Itoa64 rv) = (rv, None)" using assms(2) by (rule Atoi64_Itoa64)
  have s: "decode (Itoa64 rv @ '':'' @ path @ ''='' @ body) = (path, body, rv, True, None)"
    using decode_good_rev [OF Itoa64_no_colon at, of "path @ ''='' @ body"] ok noeq
    by (simp add: Split2_first)
  have d: "decode (Itoa64 rv @ '':'' @ path) = (path, '''', rv, False, None)"
    using decode_good_rev [OF Itoa64_no_colon at, of path] ok noeq
    by (simp add: Split2_absent)
  show ?thesis using s d ok by (simp add: EncodeSet_def EncodeDel_def)
qed

text \<open>
  The round trip at the path \<open>/a/b-1.c\<close>, the body \<open>x=y:z\<close> and the rev \<open>Clobber = -1\<close>.
\<close>

theorem decode_roundtrip_witness:
  "path_grammar ''/a/b-1.c'' \<and> is_int64 (-1)
   \<and> decode (fst (EncodeSet ''/a/b-1.c'' ''x=y:z'' (-1))) = (''/a/b-1.c'', ''x=y:z'', -1, True, None)
   \<and> decode (fst (EncodeDel ''/a/b-1.c'' (-1))) = (''/a/b-1.c'', '''', -1, False, None)
   \<and> fst (EncodeSet ''/a/b-1.c'' ''x=y:z'' (-1)) = ''-1:/a/b-1.c=x=y:z''"
proof -
  have p: "path_grammar ''/a/b-1.c''"
    by (simp add: path_grammar_iff pathRe_MatchString_def charPat_def)
  have r: "is_int64 (-1)" by (simp add: is_int64_def)
  have e: "fst (EncodeSet ''/a/b-1.c'' ''x=y:z'' (-1)) = ''-1:/a/b-1.c=x=y:z''"
    using p by (simp add: EncodeSet_def checkPath_grammar Itoa64_def Uitoa64_def
        uitoa_loop.simps [of "Suc 0"] uitoa_loop.simps [of 0] digit_def)
  show ?thesis using decode_roundtrip [OF p r, of "''x=y:z''"] p r e by simp
qed

text \<open>
  Claim C4, as the code has it. A mutation without \<open>:\<close> is rejected with
  \<open>ErrBadMutation\<close>. A mutation \<open>r:rest\<close> whose prefix \<open>r\<close> (the text before the first
  \<open>:\<close>) is refused by \<open>strconv.Atoi64\<close> is rejected with the error of \<open>Atoi64\<close>, a
  \<open>NumError\<close> naming \<open>r\<close>, not with \<open>ErrBadMutation\<close>. A mutation whose prefix is a number
  and whose path part \<open>p\<close> (the text up to the first \<open>=\<close>, if any) is outside the path
  grammar is rejected with \<open>BadPathError p\<close>.
\<close>

theorem decode_errors:
  "(CHR '':'' \<notin> set m \<longrightarrow> decode_err m = Some ErrBadMutation)
   \<and> (CHR '':'' \<notin> set r \<and> snd (Atoi64 r) \<noteq> None \<longrightarrow>
        decode_err (r @ '':'' @ rest) = snd (Atoi64 r)
        \<and> (\<exists>e. decode_err (r @ '':'' @ rest) = Some (NumError r e)))
   \<and> (CHR '':'' \<notin> set r \<and> snd (Atoi64 r) = None \<and> CHR ''='' \<notin> set p \<and> \<not> path_grammar p \<longrightarrow>
        decode_err (r @ '':'' @ p) = Some (BadPathError p)
        \<and> decode_err (r @ '':'' @ p @ ''='' @ body) = Some (BadPathError p))"
proof (intro conjI impI)
  assume "CHR '':'' \<notin> set m"
  then show "decode_err m = Some ErrBadMutation"
    by (simp add: decode_err_def decode_no_colon)
next
  assume a: "CHR '':'' \<notin> set r \<and> snd (Atoi64 r) \<noteq> None"
  then have a1: "CHR '':'' \<notin> set r" and a2: "snd (Atoi64 r) \<noteq> None" by simp_all
  show e: "decode_err (r @ '':'' @ rest) = snd (Atoi64 r)"
    by (simp add: decode_err_def decode_bad_rev [OF a1 a2])
  show "\<exists>e. decode_err (r @ '':'' @ rest) = Some (NumError r e)"
    using a e Atoi64_err [of r] by auto
next
  assume a: "CHR '':'' \<notin> set r \<and> snd (Atoi64 r) = None \<and> CHR ''='' \<notin> set p \<and> \<not> path_grammar p"
  then have at: "Atoi64 r = (fst (Atoi64 r), None)" by (metis prod.collapse)
  have bad: "checkPath p = Some (BadPathError p)" using a by (simp add: checkPath_grammar)
  show "decode_err (r @ '':'' @ p) = Some (BadPathError p)"
    using a bad by (simp add: decode_err_def decode_good_rev [OF _ at] Split2_absent)
  show "decode_err (r @ '':'' @ p @ ''='' @ body) = Some (BadPathError p)"
    using a bad by (simp add: decode_err_def decode_good_rev [OF _ at] Split2_first)
qed

text \<open>
  Claim C4 as stated fails: the prefix of \<open>x:/a\<close> is not a number, and \<open>decode\<close> returns
  the \<open>NumError\<close> of \<open>strconv\<close>, which is not \<open>ErrBadMutation\<close>.
\<close>

theorem decode_bad_rev_counterexample:
  "decode_err ''x:/a'' = Some (NumError ''x'' EINVAL) \<and> decode_err ''x:/a'' \<noteq> Some ErrBadMutation"
  by (simp add: decode_err_def decode_def Split2_def Atoi64_def Atoui64_def is_digit_def)

text \<open>
  The three rejections at \<open>1/a\<close> (no colon), \<open>1x:/a=b\<close> (bad number) and
  \<open>1:/a//b\<close>, \<open>1:/a//b=c\<close> (empty segment).
\<close>

theorem decode_errors_witness:
  "CHR '':'' \<notin> set ''1/a'' \<and> decode_err ''1/a'' = Some ErrBadMutation
   \<and> CHR '':'' \<notin> set ''1x'' \<and> snd (Atoi64 ''1x'') \<noteq> None
   \<and> decode_err ''1x:/a=b'' = Some (NumError ''1x'' EINVAL)
   \<and> CHR '':'' \<notin> set ''1'' \<and> snd (Atoi64 ''1'') = None \<and> CHR ''='' \<notin> set ''/a//b''
   \<and> \<not> path_grammar ''/a//b''
   \<and> decode_err ''1:/a//b'' = Some (BadPathError ''/a//b'')
   \<and> decode_err ''1:/a//b=c'' = Some (BadPathError ''/a//b'')"
proof -
  have a1: "snd (Atoi64 ''1x'') = Some (NumError ''1x'' EINVAL)"
    by (simp add: Atoi64_def Atoui64_def is_digit_def cutoff64_def)
  have a2: "snd (Atoi64 ''1'') = None"
    by (simp add: Atoi64_def Atoui64_def is_digit_def cutoff64_def)
  have g: "\<not> path_grammar ''/a//b''"
    by (simp add: path_grammar_iff pathRe_MatchString_def charPat_def)
  show ?thesis
    using decode_errors [of "''1/a''" "''1x''" "''/a=b''" "''/a//b''" "''c''"]
      decode_errors [of "''1/a''" "''1''" "''/a=b''" "''/a//b''" "''c''"] a1 a2 g
    by simp
qed

section \<open>Properties of the store\<close>

subsection \<open>Stopping and matching\<close>

lemma settle_fields [simp]:
  "watches (settle A s) = watches s" "todo (settle A s) = todo s" "state (settle A s) = state s"
  "head (settle A s) = head s" "log (settle A s) = log s" "notices (settle A s) = notices s"
  "applied (settle A s) = applied s" "sent (settle A s) = sent s" "halted (settle A s) = halted s"
  by (simp_all add: settle_def)

lemma stopped_now_settle [simp]: "stopped_now (settle A s) w = stopped_now s w"
  by (auto simp: stopped_now_def settle_def)

lemma settle_settle [simp]: "settle A (settle B s) = settle (B \<union> A) s"
proof -
  have "stopped s \<union> shutdown s \<inter> B \<union> (shutdown s - (B - stopped s)) \<inter> A
        = stopped s \<union> shutdown s \<inter> (B \<union> A)" by blast
  moreover have "shutdown s - (B - stopped s) - (A - (stopped s \<union> shutdown s \<inter> B))
        = shutdown s - (B \<union> A - stopped s)" by blast
  ultimately show ?thesis by (simp add: settle_def)
qed

lemma settle_empty [simp]: "settle {} s = s"
  by (simp add: settle_def)

lemma settle_live: "\<not> stopped_now s w \<Longrightarrow> settle {wid w} s = s"
proof -
  assume "\<not> stopped_now s w"
  then have i: "wid w \<notin> stopped s" "wid w \<notin> shutdown s" by (simp_all add: stopped_now_def)
  then have "stopped s \<union> shutdown s \<inter> {wid w} = stopped s" by blast
  moreover have "shutdown s - ({wid w} - stopped s) = shutdown s" using i by blast
  ultimately show ?thesis by (simp add: settle_def)
qed

lemma isStopped_eq: "isStopped w s = (stopped_now s w, settle {wid w} s)"
proof -
  have a: "wid w \<in> stopped s \<Longrightarrow> settle {wid w} s = s"
  proof -
    assume i: "wid w \<in> stopped s"
    then have "stopped s \<union> shutdown s \<inter> {wid w} = stopped s" by blast
    moreover have "shutdown s - ({wid w} - stopped s) = shutdown s" using i by blast
    ultimately show ?thesis by (simp add: settle_def)
  qed
  have b: "wid w \<notin> stopped s \<Longrightarrow> wid w \<in> shutdown s \<Longrightarrow>
     settle {wid w} s = s\<lparr>stopped := insert (wid w) (stopped s), shutdown := shutdown s - {wid w}\<rparr>"
  proof -
    assume i: "wid w \<notin> stopped s" "wid w \<in> shutdown s"
    then have "stopped s \<union> shutdown s \<inter> {wid w} = insert (wid w) (stopped s)" by blast
    moreover have "shutdown s - ({wid w} - stopped s) = shutdown s - {wid w}" using i by blast
    ultimately show ?thesis by (simp add: settle_def)
  qed
  show ?thesis
    using a b settle_live [of s w] by (auto simp: isStopped_def stopped_now_def)
qed

lemma settle_notices: "settle A (s\<lparr>notices := ns\<rparr>) = (settle A s)\<lparr>notices := ns\<rparr>"
  by (simp add: settle_def)

lemma stopped_now_frame [simp]:
  "stopped_now (s\<lparr>notices := ns\<rparr>) w = stopped_now s w"
  "stopped_now (s\<lparr>watches := ws\<rparr>) w = stopped_now s w"
  "stopped_now (s\<lparr>todo := td\<rparr>) w = stopped_now s w"
  "stopped_now (s\<lparr>state := sv\<rparr>) w = stopped_now s w"
  "stopped_now (s\<lparr>log := lg\<rparr>) w = stopped_now s w"
  "stopped_now (s\<lparr>head := h\<rparr>) w = stopped_now s w"
  "stopped_now (s\<lparr>applied := ap\<rparr>) w = stopped_now s w"
  "stopped_now (s\<lparr>sent := sn\<rparr>) w = stopped_now s w"
  by (simp_all add: stopped_now_def)

lemma matching_frame [simp]:
  "matching e (s\<lparr>notices := ns\<rparr>) w = matching e s w"
  "matching e (settle A s) w = matching e s w"
  by (simp_all add: matching_def)

lemma stays_frame [simp]:
  "stays e (s\<lparr>notices := ns\<rparr>) = stays e s"
  "stays e (settle A s) = stays e s"
  by (simp_all add: stays_def fun_eq_iff)

lemma noticed_frame [simp]:
  "noticed e (s\<lparr>notices := ns\<rparr>) = noticed e s"
  "noticed e (settle A s) = noticed e s"
  by (simp_all add: noticed_def fun_eq_iff)

lemma notify_loop_step:
  "notify_loop e (w # ws) nw s =
     notify_loop e ws (if stays e s w then nw @ [w] else nw)
       (if noticed e s w then (settle {wid w} s)\<lparr>notices := notices s @ [(w, e)]\<rparr>
        else settle {wid w} s)"
  by (simp add: isStopped_eq stays_def noticed_def matching_def Let_def)

lemma notify_loop_eq:
  "notify_loop e ws nw s =
     (nw @ filter (stays e s) ws,
      (settle (wid ` set ws) s)\<lparr>notices := notices s @ map (\<lambda>w. (w, e)) (filter (noticed e s) ws)\<rparr>)"
proof (induction ws arbitrary: nw s)
  case Nil
  show ?case by simp
next
  case (Cons w ws)
  have u: "insert (wid w) (wid ` set ws) = {wid w} \<union> wid ` set ws" by simp
  show ?case
    unfolding notify_loop_step Cons.IH
    by (simp add: settle_notices u del: insert_is_Un Un_insert_left)
qed

lemma notify_eq:
  "notify e ws s =
     (filter (stays e s) ws,
      (settle (wid ` set ws) s)\<lparr>notices := notices s @ map (\<lambda>w. (w, e)) (filter (noticed e s) ws)\<rparr>)"
  by (simp add: notify_def notify_loop_eq)

text \<open>
  Claim C6: for an event \<open>e\<close> matched against the watches \<open>ws\<close>, each watch is treated
  as the four steps say, in their order: a watch that is stopped or has \<open>e.seqn \<ge> w.to\<close>
  is dropped and gets no notice; otherwise the watch leaves the live set after this
  event exactly when \<open>e.seqn = w.to - 1\<close>; it gets no notice when \<open>e.seqn < w.from\<close>;
  otherwise it gets the notice \<open>(w, e)\<close> exactly when its glob matches the path of \<open>e\<close>.
  The live set that \<open>notify\<close> returns is the watches that stay, in their order, and the
  notice queue grows by the notices, in the order of the watches.
\<close>

theorem notify_treats_each_watch:
  "fst (notify e ws s) = filter (\<lambda>w. fst (matching e s w)) ws
   \<and> notices (snd (notify e ws s))
       = notices s @ map (\<lambda>w. (w, e)) (filter (\<lambda>w. snd (matching e s w)) ws)"
  using notify_eq [of e ws s] by (simp add: stays_def [abs_def] noticed_def [abs_def])

subsection \<open>What the loops leave unchanged\<close>

lemma core_fields:
  "core s' = core s \<Longrightarrow> state s' = state s \<and> log s' = log s \<and> applied s' = applied s
     \<and> head s' = head s \<and> todo s' = todo s \<and> sent s' = sent s \<and> halted s' = halted s"
  by (simp add: core_def)

lemma core_frame [simp]:
  "core (settle A s) = core s"
  "core (s\<lparr>notices := ns\<rparr>) = core s"
  "core (s\<lparr>watches := ws\<rparr>) = core s"
  "core (s\<lparr>shutdown := sd\<rparr>) = core s"
  "core (s\<lparr>stopped := sp\<rparr>) = core s"
  by (simp_all add: core_def)

lemma core_notify [simp]: "core (snd (notify e ws s)) = core s"
  by (simp add: notify_eq)

lemma skip_stopped_eq:
  "skip_stopped ns s =
     (settle (wid ` fst ` set (takeWhile (\<lambda>x. stopped_now s (fst x)) ns)) s)
       \<lparr>notices := dropWhile (\<lambda>x. stopped_now s (fst x)) ns\<rparr>"
proof (induction ns arbitrary: s)
  case Nil
  show ?case by simp
next
  case (Cons x ns)
  obtain w e where x: "x = (w, e)" by (cases x)
  show ?case
  proof (cases "stopped_now s w")
    case True
    show ?thesis
      using True unfolding x by (simp add: isStopped_eq Cons.IH)
  next
    case False
    then show ?thesis unfolding x by (simp add: isStopped_eq settle_live)
  qed
qed

lemma core_skip_stopped [simp]: "core (skip_stopped ns s) = core s"
  by (simp add: skip_stopped_eq)

lemma watches_skip_stopped [simp]: "watches (skip_stopped ns s) = watches s"
  by (simp add: skip_stopped_eq)

lemma stopped_now_skip_stopped [simp]: "stopped_now (skip_stopped ns s) w = stopped_now s w"
  by (simp add: skip_stopped_eq)

lemma backfill_empty [simp]: "backfill ver n [] s = ([], s)"
  by (simp add: backfill.simps)

lemma backfill_frame:
  "\<exists>A ex. snd (backfill ver n ws s) = (settle A s)\<lparr>notices := notices s @ ex\<rparr>"
proof (induction ver n ws s rule: backfill.induct)
  case (1 ver n ws s)
  show ?case
  proof (cases "ws \<noteq> [] \<and> n \<le> ver")
    case True
    define s1 where "s1 = snd (notify (log_at s n) ws s)"
    define ws1 where "ws1 = fst (notify (log_at s n) ws s)"
    obtain A ex where a: "snd (backfill ver (n + 1) ws1 s1) = (settle A s1)\<lparr>notices := notices s1 @ ex\<rparr>"
      using "1.IH" [OF True] unfolding s1_def ws1_def by blast
    obtain B ex1 where b: "s1 = (settle B s)\<lparr>notices := notices s @ ex1\<rparr>"
      unfolding s1_def by (simp add: notify_eq)
    have c: "backfill ver n ws s = backfill ver (n + 1) ws1 s1"
      using True by (simp add: backfill.simps [of ver n ws s] s1_def ws1_def)
    have "snd (backfill ver n ws s) = (settle (B \<union> A) s)\<lparr>notices := notices s @ (ex1 @ ex)\<rparr>"
      unfolding c a unfolding b by (simp add: settle_notices)
    then show ?thesis by blast
  next
    case False
    have "backfill ver n ws s = (ws, s)"
      using False by (subst backfill.simps) (simp only: if_False)
    then have "snd (backfill ver n ws s) = (settle {} s)\<lparr>notices := notices s @ []\<rparr>"
      by simp
    then show ?thesis by blast
  qed
qed

lemma core_backfill [simp]: "core (snd (backfill ver n ws s)) = core s"
  using backfill_frame [of ver n ws s] by auto

lemma watches_backfill [simp]: "watches (snd (backfill ver n ws s)) = watches s"
  using backfill_frame [of ver n ws s] by auto

lemma trim_loop_eq: "trim_loop n [w] h = (if n < h then (n + 1, []) else (n, [w]))"
  by (simp add: trim_loop.simps [of n "[w]"] trim_loop.simps [of "n + 1" "[]"])

lemma clean_loop_eq:
  assumes "k < MaxInt64"
  shows "clean_loop k s =
     Some (s\<lparr>log := (\<lambda>n. if head s \<le> n \<and> n \<le> k then None else log s n),
             head := max (head s) (k + 1)\<rparr>)"
proof (induction "nat (k + 1 - head s)" arbitrary: s rule: less_induct)
  case less
  show ?case
  proof (cases "head s \<le> k")
    case True
    define s1 where "s1 = s\<lparr>log := (log s)(head s := None), head := head s + 1\<rparr>"
    have i: "incr64 (head s) = head s + 1" using True assms by (simp add: incr64_def)
    have f: "(\<lambda>n. if head s + 1 \<le> n \<and> n \<le> k then None else ((log s)(head s := None)) n)
           = (\<lambda>n. if head s \<le> n \<and> n \<le> k then None else log s n)"
      using True by (auto simp: fun_eq_iff)
    have m: "max (head s + 1) (k + 1) = max (head s) (k + 1)" using True by simp
    have "clean_loop k s = clean_loop k s1"
      using True by (subst clean_loop.simps) (simp add: s1_def i)
    also have "\<dots> = Some (s1\<lparr>log := (\<lambda>n. if head s1 \<le> n \<and> n \<le> k then None else log s1 n),
          head := max (head s1) (k + 1)\<rparr>)"
      using True by (intro less) (simp add: s1_def)
    also have "\<dots> = Some (s\<lparr>log := (\<lambda>n. if head s \<le> n \<and> n \<le> k then None else log s n),
          head := max (head s) (k + 1)\<rparr>)"
      using f by (simp add: s1_def m cong: if_cong)
    finally show ?thesis .
  next
    case False
    then have "(\<lambda>n. if head s \<le> n \<and> n \<le> k then None else log s n) = log s"
      by (auto simp: fun_eq_iff)
    then show ?thesis using False by (subst clean_loop.simps) (simp add: max_def)
  qed
qed

lemma clean_loop_frame:
  assumes "clean_loop k s = Some s'"
  shows "\<exists>lg h. s' = s\<lparr>log := lg, head := h\<rparr> \<and> (\<forall>n e. lg n = Some e \<longrightarrow> log s n = Some e)"
proof -
  define P where "P = (\<lambda>(k::int) (s::'a Store) (s'::'a Store).
     \<exists>lg h. s' = s\<lparr>log := lg, head := h\<rparr> \<and> (\<forall>n e. lg n = Some e \<longrightarrow> log s n = Some e))"
  have "P k s s'"
  proof (rule clean_loop.raw_induct [OF _ assms])
    fix cl :: "int \<Rightarrow> 'a Store \<Rightarrow> 'a Store option" and k s s'
    assume IH: "\<And>k s s'. cl k s = Some s' \<Longrightarrow> P k s s'"
      and h: "(if head s \<le> k
               then cl k (s\<lparr>log := (log s)(head s := None), head := incr64 (head s)\<rparr>)
               else Some s) = Some s'"
    show "P k s s'"
    proof (cases "head s \<le> k")
      case True
      define s1 where "s1 = s\<lparr>log := (log s)(head s := None), head := incr64 (head s)\<rparr>"
      have "cl k s1 = Some s'" using h True by (simp add: s1_def)
      then obtain lg hd' where a: "s' = s1\<lparr>log := lg, head := hd'\<rparr>"
          "\<forall>n e. lg n = Some e \<longrightarrow> log s1 n = Some e"
        using IH unfolding P_def by blast
      have "s' = s\<lparr>log := lg, head := hd'\<rparr>" using a(1) by (simp add: s1_def)
      moreover have "\<forall>n e. lg n = Some e \<longrightarrow> log s n = Some e"
      proof (intro allI impI)
        fix n e assume "lg n = Some e"
        then have "log s1 n = Some e" using a(2) by blast
        then show "log s n = Some e" by (cases "n = head s") (simp_all add: s1_def)
      qed
      ultimately show ?thesis unfolding P_def by blast
    next
      case False
      then have "s' = s\<lparr>log := log s, head := head s\<rparr>" using h by simp
      then show ?thesis unfolding P_def by blast
    qed
  qed
  then show ?thesis by (simp add: P_def)
qed

lemma clean_loop_head_inv:
  assumes "clean_loop k s = Some s'" and "head_inv s" and "k \<le> version s"
  shows "head_inv s'"
proof -
  define P where "P = (\<lambda>(k::int) (s::'a Store) (s'::'a Store). head_inv s \<and> k \<le> version s \<longrightarrow> head_inv s')"
  have "P k s s'"
  proof (rule clean_loop.raw_induct [OF _ assms(1)])
    fix cl :: "int \<Rightarrow> 'a Store \<Rightarrow> 'a Store option" and k s s'
    assume IH: "\<And>k s s'. cl k s = Some s' \<Longrightarrow> P k s s'"
      and h: "(if head s \<le> k
               then cl k (s\<lparr>log := (log s)(head s := None), head := incr64 (head s)\<rparr>)
               else Some s) = Some s'"
    show "P k s s'"
    proof (cases "head s \<le> k")
      case True
      define s1 where "s1 = s\<lparr>log := (log s)(head s := None), head := incr64 (head s)\<rparr>"
      have c: "cl k s1 = Some s'" using h True by (simp add: s1_def)
      have i: "incr64 (head s) \<le> head s + 1" by (simp add: incr64_def MaxInt64_def)
      have "head_inv s1" if a: "head_inv s" "k \<le> version s"
      proof -
        have "head s1 \<le> version s1 + 1"
          using a True i by (simp add: s1_def version_def)
        moreover have "log_above_head s1"
          unfolding log_above_head_def
        proof (intro allI impI)
          fix n e assume l: "log s1 n = Some e"
          then have "n \<noteq> head s" "log s n = Some e" by (auto simp: s1_def split: if_splits)
          then have "head s < n" using a(1) by (force simp: head_inv_def log_above_head_def)
          then show "head s1 \<le> n" using i by (simp add: s1_def)
        qed
        ultimately show ?thesis by (simp add: head_inv_def)
      qed
      moreover have "version s1 = version s" by (simp add: s1_def version_def)
      ultimately show ?thesis using IH [OF c] unfolding P_def by simp
    next
      case False
      then show ?thesis using h unfolding P_def by simp
    qed
  qed
  then show ?thesis using assms(2,3) by (simp add: P_def)
qed


subsection \<open>The drain\<close>

lemma Seqn_node_apply [simp]: "Seqn (snd (node_apply tr values n m)) = n"
  by (simp add: node_apply_def split_beta)

lemma drain_stale:
  "OpSeqn t \<le> ver \<Longrightarrow>
   drain tr flush ver values ev (t # rest) s = drain tr flush ver values ev rest (s\<lparr>todo := rest\<rparr>)"
  by simp


lemma drain_next:
  "OpSeqn t = ver + 1 \<Longrightarrow>
   drain tr False ver values ev (t # rest) s =
     (let r = node_apply tr values (OpSeqn t) (OpMut t);
          s3 = s\<lparr>todo := rest, state := (OpSeqn t, fst r), applied := applied s @ [snd r],
                 log := (log s)(OpSeqn t \<mapsto> snd r)\<rparr>;
          n = notify (snd r) (watches s) s3
      in drain tr False (OpSeqn t) (fst r) (snd r) rest ((snd n)\<lparr>watches := fst n\<rparr>))"
  by (simp add: Let_def)

lemma drain_flush_next:
  "ver < OpSeqn t \<Longrightarrow>
   drain tr True ver values ev (t # rest) s =
     (let r = node_apply tr values (OpSeqn t) (OpMut t);
          s2 = s\<lparr>todo := rest, state := (OpSeqn t, fst r), applied := applied s @ [snd r]\<rparr>
      in drain tr True (OpSeqn t) (fst r) (snd r) rest s2)"
  by (simp add: Let_def)

lemma inv_core: "core s' = core s \<Longrightarrow> store_inv s' = store_inv s \<and> head_inv s' = head_inv s"
  by (simp add: core_def store_inv_def head_inv_def log_bounded_def log_above_head_def
      applied_ascending_def version_def)

lemma inv_todo [simp]:
  "store_inv (s\<lparr>todo := td\<rparr>) = store_inv s" "head_inv (s\<lparr>todo := td\<rparr>) = head_inv s"
  by (simp_all add: store_inv_def head_inv_def log_bounded_def log_above_head_def
      applied_ascending_def version_def)

lemma inv_sent [simp]:
  "store_inv (s\<lparr>sent := sn\<rparr>) = store_inv s" "head_inv (s\<lparr>sent := sn\<rparr>) = head_inv s"
  by (simp_all add: store_inv_def head_inv_def log_bounded_def log_above_head_def
      applied_ascending_def version_def)

lemma inv_halted [simp]:
  "store_inv (s\<lparr>halted := b\<rparr>) = store_inv s" "head_inv (s\<lparr>halted := b\<rparr>) = head_inv s"
  by (simp_all add: store_inv_def head_inv_def log_bounded_def log_above_head_def
      applied_ascending_def version_def)

lemma applied_step:
  assumes "applied_ascending s" and "version s < n" and "Seqn e = n"
  shows "applied_ascending (s\<lparr>state := (n, v), applied := applied s @ [e]\<rparr>)"
  using assms
  by (fastforce simp: applied_ascending_def version_def sorted_wrt_append)

lemma store_inv_apply:
  assumes "store_inv s" and "version s < n" and "Seqn e = n"
  shows "store_inv (s\<lparr>todo := rest, state := (n, v), applied := applied s @ [e]\<rparr>)"
    and "store_inv (s\<lparr>todo := rest, state := (n, v), applied := applied s @ [e],
                      log := (log s)(n \<mapsto> e)\<rparr>)"
proof -
  have a: "applied_ascending (s\<lparr>state := (n, v), applied := applied s @ [e]\<rparr>)"
    using assms by (intro applied_step) (simp_all add: store_inv_def)
  have b: "0 \<le> version s" "log_bounded s" using assms(1) by (simp_all add: store_inv_def)
  show "store_inv (s\<lparr>todo := rest, state := (n, v), applied := applied s @ [e]\<rparr>)"
    using a b assms(2)
    by (fastforce simp: store_inv_def applied_ascending_def log_bounded_def version_def)
  show "store_inv (s\<lparr>todo := rest, state := (n, v), applied := applied s @ [e],
                      log := (log s)(n \<mapsto> e)\<rparr>)"
    using a b assms(2,3)
    by (fastforce simp: store_inv_def applied_ascending_def log_bounded_def version_def)
qed

lemma head_inv_apply:
  assumes "head_inv s" and "n = version s + 1"
  shows "head_inv (s\<lparr>todo := rest, state := (n, v), applied := ap, log := (log s)(n \<mapsto> e)\<rparr>)"
  using assms by (auto simp: head_inv_def log_above_head_def version_def)

lemma drain_inv:
  assumes "store_inv s" and "ver = version s" and "0 \<le> Seqn ev" and "Seqn ev \<le> ver"
  shows "(case drain tr flush ver vals ev td s of
           (ver', vals', ev', s') \<Rightarrow>
             store_inv s' \<and> ver' = version s' \<and> 0 \<le> Seqn ev' \<and> Seqn ev' \<le> ver'
             \<and> (\<not> flush \<and> head_inv s \<longrightarrow> head_inv s'))"
  using assms
proof (induction td arbitrary: ver vals ev s)
  case Nil
  then show ?case by simp
next
  case (Cons t rest)
  have v0: "0 \<le> ver" using Cons.prems by (simp add: store_inv_def)
  consider (stale) "OpSeqn t \<le> ver"
    | (gap) "\<not> flush" "ver + 1 < OpSeqn t"
    | (nxt) "\<not> flush" "OpSeqn t = ver + 1"
    | (fl) "flush" "ver < OpSeqn t"
    by linarith
  then show ?case
  proof cases
    case stale
    show ?thesis
      unfolding drain_stale [OF stale]
      using Cons.IH [of "s\<lparr>todo := rest\<rparr>" ver ev vals] Cons.prems
      by (simp add: version_def)
  next
    case gap
    then show ?thesis using Cons.prems by simp
  next
    case nxt
    define r where "r = node_apply tr vals (OpSeqn t) (OpMut t)"
    define s3 where "s3 = s\<lparr>todo := rest, state := (OpSeqn t, fst r), applied := applied s @ [snd r],
                 log := (log s)(OpSeqn t \<mapsto> snd r)\<rparr>"
    define s4 where "s4 = (snd (notify (snd r) (watches s) s3))\<lparr>watches := fst (notify (snd r) (watches s) s3)\<rparr>"
    have c: "core s4 = core s3" by (simp add: s4_def)
    have lt: "version s < OpSeqn t" using nxt Cons.prems by simp
    have i3: "store_inv s3"
      unfolding s3_def using store_inv_apply(2) [OF Cons.prems(1) lt, of "snd r"]
      by (simp add: r_def)
    have h3: "head_inv s \<Longrightarrow> head_inv s3"
      unfolding s3_def using nxt Cons.prems(2) by (intro head_inv_apply) simp_all
    have v3: "version s3 = OpSeqn t" by (simp add: s3_def version_def)
    have v4: "version s4 = OpSeqn t" using c v3 by (simp add: core_def version_def)
    have d: "drain tr flush ver vals ev (t # rest) s
               = drain tr flush (OpSeqn t) (fst r) (snd r) rest s4"
      using nxt drain_next [OF nxt(2), of tr vals ev rest s]
      by (simp add: Let_def r_def s3_def s4_def)
    have "(case drain tr flush (OpSeqn t) (fst r) (snd r) rest s4 of
           (ver', vals', ev', s') \<Rightarrow>
             store_inv s' \<and> ver' = version s' \<and> 0 \<le> Seqn ev' \<and> Seqn ev' \<le> ver'
             \<and> (\<not> flush \<and> head_inv s4 \<longrightarrow> head_inv s'))"
      using i3 inv_core [OF c] v4 v0 nxt
      by (intro Cons.IH) (simp_all add: r_def)
    then show ?thesis
      unfolding d using h3 inv_core [OF c] by (auto split: prod.splits)
  next
    case fl
    define r where "r = node_apply tr vals (OpSeqn t) (OpMut t)"
    define s2 where "s2 = s\<lparr>todo := rest, state := (OpSeqn t, fst r), applied := applied s @ [snd r]\<rparr>"
    have lt: "version s < OpSeqn t" using fl Cons.prems by simp
    have i2: "store_inv s2"
      unfolding s2_def using store_inv_apply(1) [OF Cons.prems(1) lt, of "snd r"]
      by (simp add: r_def)
    have v2: "version s2 = OpSeqn t" by (simp add: s2_def version_def)
    have d: "drain tr flush ver vals ev (t # rest) s
               = drain tr flush (OpSeqn t) (fst r) (snd r) rest s2"
      using fl drain_flush_next [OF fl(2), of tr vals ev rest s]
      by (simp add: Let_def r_def s2_def)
    have "(case drain tr flush (OpSeqn t) (fst r) (snd r) rest s2 of
           (ver', vals', ev', s') \<Rightarrow>
             store_inv s' \<and> ver' = version s' \<and> 0 \<le> Seqn ev' \<and> Seqn ev' \<le> ver'
             \<and> (\<not> flush \<and> head_inv s2 \<longrightarrow> head_inv s'))"
      using i2 v2 v0 fl
      by (intro Cons.IH) (simp_all add: r_def)
    then show ?thesis
      unfolding d using fl by (auto split: prod.splits)
  qed
qed

subsection \<open>Invariants of a run\<close>

lemma inv_head_upd [simp]: "store_inv (s\<lparr>head := h\<rparr>) = store_inv s"
  by (simp add: store_inv_def log_bounded_def applied_ascending_def version_def)

lemma inv_watches [simp]:
  "store_inv (s\<lparr>watches := ws\<rparr>) = store_inv s" "head_inv (s\<lparr>watches := ws\<rparr>) = head_inv s"
  by (simp_all add: store_inv_def head_inv_def log_bounded_def log_above_head_def
      applied_ascending_def version_def)

lemma inv_notices [simp]:
  "store_inv (s\<lparr>notices := ns\<rparr>) = store_inv s" "head_inv (s\<lparr>notices := ns\<rparr>) = head_inv s"
  by (simp_all add: store_inv_def head_inv_def log_bounded_def log_above_head_def
      applied_ascending_def version_def)

lemma inv_skip_stopped [simp]:
  "store_inv (skip_stopped ns s) = store_inv s" "head_inv (skip_stopped ns s) = head_inv s"
  using inv_core [of "skip_stopped ns s" s] by simp_all

lemma inv_backfill [simp]:
  "store_inv (snd (backfill ver n ws s)) = store_inv s"
  "head_inv (snd (backfill ver n ws s)) = head_inv s"
  using inv_core [of "snd (backfill ver n ws s)" s] by simp_all

lemma inv_notify [simp]:
  "store_inv (snd (notify e ws s)) = store_inv s"
  "head_inv (snd (notify e ws s)) = head_inv s"
  using inv_core [of "snd (notify e ws s)" s] by simp_all

lemma version_frame [simp]:
  "version (skip_stopped ns s) = version s"
  "version (snd (backfill ver n ws s)) = version s"
  "version (snd (notify e ws s)) = version s"
  "version (s\<lparr>todo := td\<rparr>) = version s"
  "version (s\<lparr>watches := ws\<rparr>) = version s"
  "version (s\<lparr>notices := ns\<rparr>) = version s"
  "version (s\<lparr>sent := sn\<rparr>) = version s"
  "version (s\<lparr>head := h\<rparr>) = version s"
  "version (s\<lparr>log := lg\<rparr>) = version s"
  using core_fields [of "skip_stopped ns s" s] core_fields [of "snd (backfill ver n ws s)" s]
    core_fields [of "snd (notify e ws s)" s]
  by (simp_all add: version_def)

lemma store_inv_log_final:
  assumes "store_inv s" and "0 \<le> Seqn ev" and "Seqn ev \<le> version s"
  shows "store_inv (s\<lparr>log := (log s)(Seqn ev \<mapsto> ev)\<rparr>)"
  using assms by (auto simp: store_inv_def log_bounded_def applied_ascending_def version_def)

lemma after_select_inv:
  assumes "store_inv s" and "ver = version s"
  shows "store_inv (after_select tr flush ver vals s)
       \<and> (\<not> flush \<and> head_inv s \<longrightarrow> head_inv (after_select tr flush ver vals s))"
proof -
  obtain ver' vals' ev s1 where d: "drain tr flush ver vals zeroEvent (todo s) s = (ver', vals', ev, s1)"
    by (cases "drain tr flush ver vals zeroEvent (todo s) s") auto
  have z: "0 \<le> Seqn (zeroEvent :: 'a Event)" "Seqn (zeroEvent :: 'a Event) \<le> ver"
    using assms by (simp_all add: zeroEvent_def store_inv_def)
  have i: "store_inv s1" "ver' = version s1" "0 \<le> Seqn ev" "Seqn ev \<le> ver'"
      "\<not> flush \<and> head_inv s \<longrightarrow> head_inv s1"
    using drain_inv [OF assms z, where tr = tr and flush = flush and vals = vals and td = "todo s"] d
    by simp_all
  show ?thesis
  proof (cases flush)
    case True
    have "store_inv (s1\<lparr>log := (log s1)(Seqn ev \<mapsto> ev)\<rparr>)"
      using i by (intro store_inv_log_final) simp_all
    then show ?thesis using True d by (simp add: after_select_def Let_def)
  next
    case False
    then show ?thesis using i d by (simp add: after_select_def)
  qed
qed

lemma clean_loop_inv:
  assumes "clean_loop k s = Some s1"
  shows "version s1 = version s" and "store_inv s \<Longrightarrow> store_inv s1"
proof -
  obtain lg h where a: "s1 = s\<lparr>log := lg, head := h\<rparr>"
      "\<forall>n e. lg n = Some e \<longrightarrow> log s n = Some e"
    using clean_loop_frame [OF assms] by blast
  show "version s1 = version s" by (simp add: a(1) version_def)
  show "store_inv s1" if "store_inv s"
    using that a(2)
    by (simp add: a(1) store_inv_def log_bounded_def applied_ascending_def version_def)
qed

lemma iteration_inv:
  assumes "store_inv s" and "iteration tr i s = Some s'"
  shows "store_inv s'
     \<and> (i \<noteq> RecvFlush \<and> (case i of RecvClean k \<Rightarrow> k \<le> version s | _ \<Rightarrow> True) \<and> head_inv s
          \<longrightarrow> head_inv s')"
proof -
  note as = after_select_inv [of _ "fst (state s)" tr _ "snd (state s)"]
  have h: "\<not> halted s" using assms(2) by (auto simp: iteration_def split: if_splits)
  define s0 where "s0 = skip_stopped (notices s) s"
  have i0: "store_inv s0" "version s0 = version s" "head_inv s0 = head_inv s"
    using assms(1) by (simp_all add: s0_def)
  have v: "fst (state s) = version s" by (simp add: version_def)
  show ?thesis
  proof (cases i)
    case (RecvOp a)
    then show ?thesis
      using assms(2) h i0 as [of "s0\<lparr>todo := heap_Push (todo s0) a\<rparr>" False] as [of s0 False]
      by (auto simp: iteration_def Let_def s0_def [symmetric] v split: if_splits)
  next
    case OpsClosed
    then show ?thesis using assms(2) h i0 by (auto simp: iteration_def Let_def s0_def [symmetric])
  next
    case (RecvWatch w)
    define r where "r = backfill (version s) (fst (trim_loop (wfrom w) [w] (head s0)))
                          (snd (trim_loop (wfrom w) [w] (head s0))) s0"
    have "store_inv ((snd r)\<lparr>watches := watches s0 @ fst r\<rparr>)"
         "version ((snd r)\<lparr>watches := watches s0 @ fst r\<rparr>) = version s"
         "head_inv ((snd r)\<lparr>watches := watches s0 @ fst r\<rparr>) = head_inv s"
      using i0 by (simp_all add: r_def)
    then show ?thesis
      using assms(2) h RecvWatch as [of "(snd r)\<lparr>watches := watches s0 @ fst r\<rparr>" False]
      by (auto simp: iteration_def Let_def s0_def [symmetric] v r_def [symmetric])
  next
    case (RecvClean k)
    then obtain s1 where c: "clean_loop k s0 = Some s1"
        and r: "s' = after_select tr False (fst (state s)) (snd (state s)) s1"
      using assms(2) h
      by (auto simp: iteration_def Let_def s0_def [symmetric] split: option.splits)
    have "store_inv s1" "version s1 = version s"
      using clean_loop_inv [OF c] i0 by simp_all
    moreover have "head_inv s1" if "k \<le> version s" "head_inv s"
      using clean_loop_head_inv [OF c] that i0 by simp
    ultimately show ?thesis
      using RecvClean r as [of s1 False] by (auto simp: v)
  next
    case SendSeqn
    then show ?thesis
      using assms(2) h i0 as [of s0 False]
      by (auto simp: iteration_def Let_def s0_def [symmetric] v)
  next
    case SendWatches
    then show ?thesis
      using assms(2) h i0 as [of s0 False]
      by (auto simp: iteration_def Let_def s0_def [symmetric] v)
  next
    case SendNotice
    show ?thesis
    proof (cases "notices s0")
      case Nil
      then show ?thesis using assms(2) h SendNotice
        by (simp add: iteration_def Let_def s0_def [symmetric])
    next
      case (Cons x ns)
      obtain w e where x: "x = (w, e)" by (cases x)
      show ?thesis
        using assms(2) h i0 SendNotice Cons x
          as [of "s0\<lparr>sent := sent s0 @ [(wid w, e)], notices := ns\<rparr>" False]
        by (auto simp: iteration_def Let_def s0_def [symmetric] v)
    qed
  next
    case RecvFlush
    then show ?thesis
      using assms(2) h i0 as [of s0 True]
      by (auto simp: iteration_def Let_def s0_def [symmetric] v)
  qed
qed

lemma inv_Stop [simp]:
  "store_inv (Stop w s) = store_inv s" "head_inv (Stop w s) = head_inv s"
  using inv_core [of "Stop w s" s] by (simp_all add: Stop_def)

lemma run_inv:
  assumes "run tr xs s = Some s'" and "store_inv s"
  shows "store_inv s' \<and> (trims_applied tr xs s \<and> head_inv s \<longrightarrow> head_inv s')"
  using assms
proof (induction xs arbitrary: s)
  case Nil
  then show ?case by simp
next
  case (Cons x xs)
  show ?case
  proof (cases x)
    case (Select i)
    then obtain s1 where s1: "iteration tr i s = Some s1" "run tr xs s1 = Some s'"
      using Cons.prems(1) by (auto split: option.splits)
    have a: "store_inv s1"
      "i \<noteq> RecvFlush \<and> (case i of RecvClean k \<Rightarrow> k \<le> version s | _ \<Rightarrow> True) \<and> head_inv s
          \<longrightarrow> head_inv s1"
      using iteration_inv [OF Cons.prems(2) s1(1)] by simp_all
    show ?thesis
      using Cons.IH [OF s1(2) a(1)] a(2) s1(1) Select by auto
  next
    case (CallStop w)
    then show ?thesis using Cons.IH [of "Stop w s"] Cons.prems by simp
  qed
qed

lemma New_inv: "store_inv (New emptyDir)" "head_inv (New emptyDir)"
  by (simp_all add: New_def store_inv_def head_inv_def log_bounded_def log_above_head_def
      applied_ascending_def version_def)

text \<open>
  Claim C3, as the code has it. In every state that a run reaches from a new store,
  through any iterations of the dispatcher (operations, registrations, \<open>Clean\<close>, queries,
  deliveries, flushes) and any calls of \<open>Stop\<close>, every event of the log is stored under
  its own sequence number, which is at least 0 and at most the version. When the run has
  no flush and every \<open>Clean(k)\<close> is received with \<open>k\<close> at most the version, no entry of
  the log is below \<open>head\<close>.
\<close>

theorem log_within_version:
  assumes "run tr xs (New emptyDir) = Some s"
  shows "log_bounded s \<and> (trims_applied tr xs (New emptyDir) \<longrightarrow> log_above_head s)"
  using run_inv [OF assms New_inv(1)] New_inv(2) [of emptyDir]
  by (simp add: store_inv_def head_inv_def)

subsection \<open>Concrete runs\<close>

lemma notify_nil [simp]: "notify e [] s = ([], s)"
  by (simp add: notify_def)

lemma run_append:
  "run tr (xs @ ys) s = (case run tr xs s of None \<Rightarrow> None | Some s' \<Rightarrow> run tr ys s')"
proof (induction xs arbitrary: s)
  case Nil
  show ?case by simp
next
  case (Cons x xs)
  show ?case by (cases x) (simp_all add: Cons.IH split: option.splits)
qed

lemma pending_5_8:
  "run tr [Select (RecvOp \<lparr>OpSeqn = 5, OpMut = m5\<rparr>), Select (RecvOp \<lparr>OpSeqn = 8, OpMut = m8\<rparr>)]
       (New emptyDir)
   = Some ((New emptyDir)\<lparr>todo := [\<lparr>OpSeqn = 5, OpMut = m5\<rparr>, \<lparr>OpSeqn = 8, OpMut = m8\<rparr>]\<rparr>)"
  by (simp add: iteration_def after_select_def New_def heap_Push_def Let_def)

lemma pending_8_5:
  "run tr [Select (RecvOp \<lparr>OpSeqn = 8, OpMut = m8\<rparr>), Select (RecvOp \<lparr>OpSeqn = 5, OpMut = m5\<rparr>)]
       (New emptyDir)
   = Some ((New emptyDir)\<lparr>todo := [\<lparr>OpSeqn = 5, OpMut = m5\<rparr>, \<lparr>OpSeqn = 8, OpMut = m8\<rparr>]\<rparr>)"
  by (simp add: iteration_def after_select_def New_def heap_Push_def Let_def)

lemma flush_5_8:
  "iteration tr RecvFlush ((New emptyDir)\<lparr>todo := [\<lparr>OpSeqn = 5, OpMut = m5\<rparr>, \<lparr>OpSeqn = 8, OpMut = m8\<rparr>]\<rparr>)
   = Some ((New emptyDir)
       \<lparr>state := (8, fst (node_apply tr (fst (node_apply tr emptyDir 5 m5)) 8 m8)),
        head := 9,
        log := [8 \<mapsto> snd (node_apply tr (fst (node_apply tr emptyDir 5 m5)) 8 m8)],
        applied := [snd (node_apply tr emptyDir 5 m5),
                    snd (node_apply tr (fst (node_apply tr emptyDir 5 m5)) 8 m8)]\<rparr>)"
  by (simp add: iteration_def after_select_def New_def Let_def)

lemma run_flush_5_8:
  "run tr [Select (RecvOp \<lparr>OpSeqn = 5, OpMut = m5\<rparr>), Select (RecvOp \<lparr>OpSeqn = 8, OpMut = m8\<rparr>),
           Select RecvFlush] (New emptyDir)
   = Some ((New emptyDir)
       \<lparr>state := (8, fst (node_apply tr (fst (node_apply tr emptyDir 5 m5)) 8 m8)),
        head := 9,
        log := [8 \<mapsto> snd (node_apply tr (fst (node_apply tr emptyDir 5 m5)) 8 m8)],
        applied := [snd (node_apply tr emptyDir 5 m5),
                    snd (node_apply tr (fst (node_apply tr emptyDir 5 m5)) 8 m8)]\<rparr>)"
  using run_append [of tr "[Select (RecvOp \<lparr>OpSeqn = 5, OpMut = m5\<rparr>), Select (RecvOp \<lparr>OpSeqn = 8, OpMut = m8\<rparr>)]"
      "[Select RecvFlush]" "New emptyDir"]
  by (simp add: pending_5_8 flush_5_8 del: run.simps) (simp add: flush_5_8)

lemma run_flush_8_5:
  "run tr [Select (RecvOp \<lparr>OpSeqn = 8, OpMut = m8\<rparr>), Select (RecvOp \<lparr>OpSeqn = 5, OpMut = m5\<rparr>),
           Select RecvFlush] (New emptyDir)
   = Some ((New emptyDir)
       \<lparr>state := (8, fst (node_apply tr (fst (node_apply tr emptyDir 5 m5)) 8 m8)),
        head := 9,
        log := [8 \<mapsto> snd (node_apply tr (fst (node_apply tr emptyDir 5 m5)) 8 m8)],
        applied := [snd (node_apply tr emptyDir 5 m5),
                    snd (node_apply tr (fst (node_apply tr emptyDir 5 m5)) 8 m8)]\<rparr>)"
  using run_append [of tr "[Select (RecvOp \<lparr>OpSeqn = 8, OpMut = m8\<rparr>), Select (RecvOp \<lparr>OpSeqn = 5, OpMut = m5\<rparr>)]"
      "[Select RecvFlush]" "New emptyDir"]
  by (simp add: pending_8_5 flush_5_8 del: run.simps) (simp add: flush_5_8)

text \<open>
  Claim C8: on a new store at version 0 that receives the operations 5 and 8, in either
  order, a flush applies both, the one for 5 first, leaves the store at version 8 with
  nothing pending, and leaves exactly one event in the log, the one for sequence number 8.
  This holds for every tree function and every pair of mutations.
\<close>

theorem flush_collapse:
  "\<exists>s e5 e8.
      run tr [Select (RecvOp \<lparr>OpSeqn = 5, OpMut = m5\<rparr>), Select (RecvOp \<lparr>OpSeqn = 8, OpMut = m8\<rparr>),
              Select RecvFlush] (New emptyDir) = Some s
    \<and> run tr [Select (RecvOp \<lparr>OpSeqn = 8, OpMut = m8\<rparr>), Select (RecvOp \<lparr>OpSeqn = 5, OpMut = m5\<rparr>),
              Select RecvFlush] (New emptyDir) = Some s
    \<and> e5 = snd (node_apply tr emptyDir 5 m5)
    \<and> e8 = snd (node_apply tr (fst (node_apply tr emptyDir 5 m5)) 8 m8)
    \<and> applied s = [e5, e8] \<and> Seqn e5 = 5 \<and> Seqn e8 = 8
    \<and> version s = 8 \<and> log s = [8 \<mapsto> e8] \<and> dom (log s) = {8} \<and> todo s = []"
  unfolding run_flush_5_8 run_flush_8_5
  by (simp add: New_def version_def)

lemma run_clean_5_op_1:
  "run tr [Select (RecvClean 5), Select (RecvOp \<lparr>OpSeqn = 1, OpMut = m1\<rparr>)] (New emptyDir)
   = Some ((New emptyDir)
       \<lparr>state := (1, fst (node_apply tr emptyDir 1 m1)),
        head := 6,
        log := [1 \<mapsto> snd (node_apply tr emptyDir 1 m1)],
        applied := [snd (node_apply tr emptyDir 1 m1)]\<rparr>)"
proof -
  have l: "(\<lambda>n::int. if 0 \<le> n \<and> n \<le> 5 then None else (Map.empty :: int \<rightharpoonup> 'a Event) n) = Map.empty"
    by (auto simp: fun_eq_iff)
  have c: "iteration tr (RecvClean 5) (New emptyDir) = Some ((New emptyDir)\<lparr>head := 6\<rparr>)"
    using l by (simp add: iteration_def after_select_def New_def Let_def clean_loop_eq MaxInt64_def cong: if_cong)
  show ?thesis
    by (simp add: c) (simp add: iteration_def after_select_def New_def heap_Push_def Let_def)
qed

text \<open>
  Claim C3 as stated fails, in two ways. After the flush of the operations 5 and 8 the
  log holds the event of sequence number 8 while \<open>head\<close> is 9. After \<open>Clean(5)\<close> on a new
  store and the operation 1, the log holds the event of sequence number 1 while \<open>head\<close>
  is 6. In both states an entry below \<open>head\<close> is present.
\<close>

theorem log_entry_below_head:
  "run flat_apply [Select (RecvOp op5), Select (RecvOp op8), Select RecvFlush] (New ()) \<noteq> None
   \<and> head (the (run flat_apply [Select (RecvOp op5), Select (RecvOp op8), Select RecvFlush] (New ()))) = 9
   \<and> log (the (run flat_apply [Select (RecvOp op5), Select (RecvOp op8), Select RecvFlush] (New ()))) 8 \<noteq> None
   \<and> \<not> log_between_head_and_version
         (the (run flat_apply [Select (RecvOp op5), Select (RecvOp op8), Select RecvFlush] (New ())))
   \<and> run flat_apply [Select (RecvClean 5), Select (RecvOp op1)] (New ()) \<noteq> None
   \<and> head (the (run flat_apply [Select (RecvClean 5), Select (RecvOp op1)] (New ()))) = 6
   \<and> log (the (run flat_apply [Select (RecvClean 5), Select (RecvOp op1)] (New ()))) 1 \<noteq> None
   \<and> \<not> log_between_head_and_version
         (the (run flat_apply [Select (RecvClean 5), Select (RecvOp op1)] (New ())))"
proof -
  define s where "s = the (run flat_apply [Select (RecvOp op5), Select (RecvOp op8), Select RecvFlush] (New ()))"
  define t where "t = the (run flat_apply [Select (RecvClean 5), Select (RecvOp op1)] (New ()))"
  have r: "run flat_apply [Select (RecvOp op5), Select (RecvOp op8), Select RecvFlush] (New ()) \<noteq> None"
    unfolding op5_def op8_def run_flush_5_8 by simp
  have h: "head s = 9" and l: "log s 8 \<noteq> None"
    unfolding s_def op5_def op8_def run_flush_5_8 by (simp_all add: New_def)
  have a: "\<not> log_between_head_and_version s"
    using h l by (auto simp: log_between_head_and_version_def)
  have r': "run flat_apply [Select (RecvClean 5), Select (RecvOp op1)] (New ()) \<noteq> None"
    unfolding op1_def run_clean_5_op_1 by simp
  have h': "head t = 6" and l': "log t 1 \<noteq> None"
    unfolding t_def op1_def run_clean_5_op_1 by (simp_all add: New_def)
  have b: "\<not> log_between_head_and_version t"
    using h' l' by (auto simp: log_between_head_and_version_def)
  show ?thesis using r h l a r' h' l' b unfolding s_def t_def by simp
qed

lemma run_1_2:
  "run tr [Select (RecvOp \<lparr>OpSeqn = 2, OpMut = m2\<rparr>), Select (RecvOp \<lparr>OpSeqn = 1, OpMut = m1\<rparr>)]
       (New emptyDir)
   = Some ((New emptyDir)
       \<lparr>state := (2, fst (node_apply tr (fst (node_apply tr emptyDir 1 m1)) 2 m2)),
        log := [1 \<mapsto> snd (node_apply tr emptyDir 1 m1),
                2 \<mapsto> snd (node_apply tr (fst (node_apply tr emptyDir 1 m1)) 2 m2)],
        applied := [snd (node_apply tr emptyDir 1 m1),
                    snd (node_apply tr (fst (node_apply tr emptyDir 1 m1)) 2 m2)]\<rparr>)"
  by (simp add: iteration_def after_select_def New_def heap_Push_def Let_def)

lemma run_1_2_clean:
  "run tr [Select (RecvOp \<lparr>OpSeqn = 2, OpMut = m2\<rparr>), Select (RecvOp \<lparr>OpSeqn = 1, OpMut = m1\<rparr>),
           Select (RecvClean 1)]
       (New emptyDir)
   = Some ((New emptyDir)
       \<lparr>state := (2, fst (node_apply tr (fst (node_apply tr emptyDir 1 m1)) 2 m2)),
        head := 2,
        log := [2 \<mapsto> snd (node_apply tr (fst (node_apply tr emptyDir 1 m1)) 2 m2)],
        applied := [snd (node_apply tr emptyDir 1 m1),
                    snd (node_apply tr (fst (node_apply tr emptyDir 1 m1)) 2 m2)]\<rparr>)"
proof -
  have l: "(\<lambda>n::int. if 0 \<le> n \<and> n \<le> 1 then None
              else [1 \<mapsto> snd (node_apply tr emptyDir 1 m1),
                    2 \<mapsto> snd (node_apply tr (fst (node_apply tr emptyDir 1 m1)) 2 m2)] n)
      = [2 \<mapsto> snd (node_apply tr (fst (node_apply tr emptyDir 1 m1)) 2 m2)]"
    by (auto simp: fun_eq_iff)
  show ?thesis
    using run_append [of tr "[Select (RecvOp \<lparr>OpSeqn = 2, OpMut = m2\<rparr>), Select (RecvOp \<lparr>OpSeqn = 1, OpMut = m1\<rparr>)]"
      "[Select (RecvClean 1)]" "New emptyDir"] l
    by (simp add: run_1_2 del: run.simps)
       (simp add: iteration_def after_select_def New_def Let_def clean_loop_eq MaxInt64_def cong: if_cong)
qed

lemma trims_1_2_clean:
  "trims_applied tr [Select (RecvOp \<lparr>OpSeqn = 2, OpMut = m2\<rparr>), Select (RecvOp \<lparr>OpSeqn = 1, OpMut = m1\<rparr>),
           Select (RecvClean 1)] (New emptyDir)"
  by (simp add: iteration_def after_select_def New_def heap_Push_def Let_def version_def
        clean_loop_eq MaxInt64_def split: option.split)

text \<open>
  The bounds of the log after the operations 1 and 2 and \<open>Clean(1)\<close>: the entry of
  sequence number 2 remains, at \<open>head = 2\<close> and version 2.
\<close>

theorem log_within_version_witness:
  "run flat_apply [Select (RecvOp op2), Select (RecvOp op1), Select (RecvClean 1)] (New ()) \<noteq> None
   \<and> trims_applied flat_apply [Select (RecvOp op2), Select (RecvOp op1), Select (RecvClean 1)] (New ())
   \<and> log (the (run flat_apply [Select (RecvOp op2), Select (RecvOp op1), Select (RecvClean 1)] (New ()))) 2 \<noteq> None
   \<and> log_bounded (the (run flat_apply [Select (RecvOp op2), Select (RecvOp op1), Select (RecvClean 1)] (New ())))
   \<and> log_above_head (the (run flat_apply [Select (RecvOp op2), Select (RecvOp op1), Select (RecvClean 1)] (New ())))"
proof -
  obtain s where s: "run flat_apply [Select (RecvOp op2), Select (RecvOp op1), Select (RecvClean 1)] (New ()) = Some s"
    unfolding op1_def op2_def run_1_2_clean by simp
  have t: "trims_applied flat_apply [Select (RecvOp op2), Select (RecvOp op1), Select (RecvClean 1)] (New ())"
    unfolding op1_def op2_def by (rule trims_1_2_clean)
  have l: "log s 2 \<noteq> None"
    using s unfolding op1_def op2_def run_1_2_clean by (auto simp: New_def)
  show ?thesis using log_within_version [OF s] s t l by simp
qed

subsection \<open>Each sequence number is applied once\<close>


lemma drain_flush_next_state:
  "ver < OpSeqn t \<Longrightarrow>
   drain tr True ver vals ev (t # rest) s
     = drain tr True (OpSeqn t) (fst (node_apply tr vals (OpSeqn t) (OpMut t)))
         (snd (node_apply tr vals (OpSeqn t) (OpMut t))) rest
         (s\<lparr>todo := rest, state := (OpSeqn t, fst (node_apply tr vals (OpSeqn t) (OpMut t))),
            applied := applied s @ [snd (node_apply tr vals (OpSeqn t) (OpMut t))]\<rparr>)"
  using drain_flush_next [of ver t tr vals ev rest s] by (simp add: Let_def)






subsection \<open>What a flush tells the watches\<close>

lemma drain_flush_fields:
  "watches (snd (snd (snd (drain tr True ver vals ev td s)))) = watches s
   \<and> notices (snd (snd (snd (drain tr True ver vals ev td s)))) = notices s
   \<and> log (snd (snd (snd (drain tr True ver vals ev td s)))) = log s
   \<and> stopped (snd (snd (snd (drain tr True ver vals ev td s)))) = stopped s
   \<and> shutdown (snd (snd (snd (drain tr True ver vals ev td s)))) = shutdown s
   \<and> (\<exists>new. applied (snd (snd (snd (drain tr True ver vals ev td s)))) = applied s @ new
          \<and> fst (snd (snd (drain tr True ver vals ev td s))) = (if new = [] then ev else last new))"
proof (induction td arbitrary: ver vals ev s)
  case Nil
  show ?case by simp
next
  case (Cons t rest)
  show ?case
  proof (cases "OpSeqn t \<le> ver")
    case True
    show ?thesis
      unfolding drain_stale [OF True]
      using Cons.IH [of ver vals ev "s\<lparr>todo := rest\<rparr>"] by simp
  next
    case False
    then have lt: "ver < OpSeqn t" by simp
    define r where "r = node_apply tr vals (OpSeqn t) (OpMut t)"
    define s2 where "s2 = s\<lparr>todo := rest, state := (OpSeqn t, fst r), applied := applied s @ [snd r]\<rparr>"
    define d where "d = drain tr True (OpSeqn t) (fst r) (snd r) rest s2"
    have e: "drain tr True ver vals ev (t # rest) s = d"
      using drain_flush_next_state [OF lt, of tr vals ev rest s] by (simp add: d_def s2_def r_def)
    have ih: "watches (snd (snd (snd d))) = watches s2" "notices (snd (snd (snd d))) = notices s2"
        "log (snd (snd (snd d))) = log s2" "stopped (snd (snd (snd d))) = stopped s2"
        "shutdown (snd (snd (snd d))) = shutdown s2"
      using Cons.IH [of "OpSeqn t" "fst r" "snd r" s2] unfolding d_def by simp_all
    obtain new where n: "applied (snd (snd (snd d))) = applied s2 @ new"
        "fst (snd (snd d)) = (if new = [] then snd r else last new)"
      using Cons.IH [of "OpSeqn t" "fst r" "snd r" s2] unfolding d_def by blast
    have "applied (snd (snd (snd d))) = applied s @ (snd r # new)
          \<and> fst (snd (snd d)) = (if snd r # new = [] then ev else last (snd r # new))"
      using n by (simp add: s2_def)
    then have "\<exists>new. applied (snd (snd (snd d))) = applied s @ new
          \<and> fst (snd (snd d)) = (if new = [] then ev else last new)" by blast
    then show ?thesis unfolding e using ih by (simp add: s2_def)
  qed
qed

lemma skip_stopped_fields [simp]:
  "applied (skip_stopped ns s) = applied s" "log (skip_stopped ns s) = log s"
  "state (skip_stopped ns s) = state s" "todo (skip_stopped ns s) = todo s"
  "head (skip_stopped ns s) = head s" "halted (skip_stopped ns s) = halted s"
  "sent (skip_stopped ns s) = sent s"
  by (simp_all add: skip_stopped_eq)

lemma stopped_now_cong:
  "stopped s' = stopped s \<Longrightarrow> shutdown s' = shutdown s \<Longrightarrow> stopped_now s' = stopped_now s"
  by (simp add: stopped_now_def fun_eq_iff)

lemma matching_cong: "stopped_now s' = stopped_now s \<Longrightarrow> matching e s' = matching e s"
  by (simp add: matching_def fun_eq_iff)

lemma iteration_flush:
  assumes "\<not> halted s"
  shows "\<exists>s'. iteration tr RecvFlush s = Some s'
     \<and> notices s' = notices (skip_stopped (notices s) s)
          @ map (\<lambda>w. (w, final_event s s'))
              (filter (\<lambda>w. snd (matching (final_event s s') s w)) (watches s))
     \<and> log s' = (log s)(Seqn (final_event s s') \<mapsto> final_event s s')"
proof -
  define s0 where "s0 = skip_stopped (notices s) s"
  define d where "d = drain tr True (fst (state s)) (snd (state s)) zeroEvent (todo s0) s0"
  define s1 where "s1 = snd (snd (snd d))"
  define ev where "ev = fst (snd (snd d))"
  define s2 where "s2 = s1\<lparr>log := (log s1)(Seqn ev \<mapsto> ev)\<rparr>"
  define s' where "s' = (snd (notify ev (watches s2) s2))\<lparr>watches := fst (notify ev (watches s2) s2),
     head := fst d + 1\<rparr>"
  have it: "iteration tr RecvFlush s = Some s'"
    using assms
    by (simp add: iteration_def after_select_def Let_def split_beta s'_def s2_def s1_def ev_def
        d_def s0_def)
  note f = drain_flush_fields [of tr "fst (state s)" "snd (state s)" zeroEvent "todo s0" s0,
      folded d_def, folded s1_def ev_def]
  have w: "watches s1 = watches s" "notices s1 = notices s0" "log s1 = log s"
    using f by (simp_all add: s0_def)
  have st: "stopped_now s1 = stopped_now s"
  proof -
    have "stopped_now s1 = stopped_now s0" using f by (intro stopped_now_cong) simp_all
    then show ?thesis by (simp add: s0_def fun_eq_iff)
  qed
  obtain new where n: "applied s1 = applied s @ new" "ev = (if new = [] then zeroEvent else last new)"
    using f by (auto simp: s0_def)
  have ap: "applied s' = applied s @ new"
    using n(1) by (simp add: s'_def s2_def notify_eq)
  have fe: "final_event s s' = ev"
    using ap n(2) by (simp add: final_event_def)
  have m: "matching ev s2 = matching ev s"
    using st by (intro matching_cong) (simp add: s2_def fun_eq_iff)
  have no: "notices s' = notices s0 @ map (\<lambda>w. (w, ev)) (filter (\<lambda>w. snd (matching ev s w)) (watches s))"
    using w by (simp add: s'_def notify_eq noticed_def [abs_def] m) (simp add: s2_def)
  have lg: "log s' = (log s)(Seqn ev \<mapsto> ev)"
    using w by (simp add: s'_def notify_eq) (simp add: s2_def)
  show ?thesis
    using it no lg unfolding fe [symmetric] s0_def by blast
qed

lemma register_watch_all:
  "NewWatchFrom tr any_glob 1 1 (New emptyDir)
     = Some ((Some watch_all, None), (New emptyDir)\<lparr>watches := [watch_all]\<rparr>)"
  by (simp add: NewWatchFrom_def watchOn_def iteration_def after_select_def New_def Let_def
      trim_loop_eq backfill.simps watch_all_def)

lemma watch_all_noticed:
  "wid watch_all \<notin> stopped s \<Longrightarrow> wid watch_all \<notin> shutdown s \<Longrightarrow> 1 \<le> Seqn e \<Longrightarrow> Seqn e < MaxInt64 - 1
   \<Longrightarrow> matching e s watch_all = (True, True)"
  by (simp add: matching_def stopped_now_def watch_all_def any_glob_def)

lemma flush_watched_5_8:
  "iteration tr RecvFlush
     ((New emptyDir)\<lparr>watches := [watch_all], todo := [\<lparr>OpSeqn = 5, OpMut = m5\<rparr>, \<lparr>OpSeqn = 8, OpMut = m8\<rparr>]\<rparr>)
   = Some ((New emptyDir)
       \<lparr>watches := [watch_all],
        state := (8, fst (node_apply tr (fst (node_apply tr emptyDir 5 m5)) 8 m8)),
        head := 9,
        log := [8 \<mapsto> snd (node_apply tr (fst (node_apply tr emptyDir 5 m5)) 8 m8)],
        notices := [(watch_all, snd (node_apply tr (fst (node_apply tr emptyDir 5 m5)) 8 m8))],
        applied := [snd (node_apply tr emptyDir 5 m5),
                    snd (node_apply tr (fst (node_apply tr emptyDir 5 m5)) 8 m8)]\<rparr>)"
  by (simp add: iteration_def after_select_def New_def Let_def notify_eq stays_def noticed_def
      watch_all_noticed MaxInt64_def settle_def)

lemma run_watched_5_8:
  "run tr [Select (RecvOp \<lparr>OpSeqn = 5, OpMut = m5\<rparr>), Select (RecvOp \<lparr>OpSeqn = 8, OpMut = m8\<rparr>)]
       ((New emptyDir)\<lparr>watches := [watch_all]\<rparr>)
   = Some ((New emptyDir)\<lparr>watches := [watch_all], todo := [\<lparr>OpSeqn = 5, OpMut = m5\<rparr>, \<lparr>OpSeqn = 8, OpMut = m8\<rparr>]\<rparr>)"
  by (simp add: iteration_def after_select_def New_def heap_Push_def Let_def)

lemma deliver_watched_8:
  "iteration tr SendNotice ((New emptyDir)
       \<lparr>watches := [watch_all], state := st, head := 9, log := lg,
        notices := [(watch_all, e)], applied := ap\<rparr>)
   = Some ((New emptyDir)
       \<lparr>watches := [watch_all], state := st, head := 9, log := lg,
        notices := [], applied := ap, sent := [(1, e)]\<rparr>)"
  by (simp add: iteration_def after_select_def New_def Let_def isStopped_def watch_all_def)

lemma run_watched_flush:
  "run tr [Select (RecvOp \<lparr>OpSeqn = 5, OpMut = m5\<rparr>), Select (RecvOp \<lparr>OpSeqn = 8, OpMut = m8\<rparr>),
           Select RecvFlush] ((New emptyDir)\<lparr>watches := [watch_all]\<rparr>)
   = Some ((New emptyDir)
       \<lparr>watches := [watch_all],
        state := (8, fst (node_apply tr (fst (node_apply tr emptyDir 5 m5)) 8 m8)),
        head := 9,
        log := [8 \<mapsto> snd (node_apply tr (fst (node_apply tr emptyDir 5 m5)) 8 m8)],
        notices := [(watch_all, snd (node_apply tr (fst (node_apply tr emptyDir 5 m5)) 8 m8))],
        applied := [snd (node_apply tr emptyDir 5 m5),
                    snd (node_apply tr (fst (node_apply tr emptyDir 5 m5)) 8 m8)]\<rparr>)"
  using run_append [of tr "[Select (RecvOp \<lparr>OpSeqn = 5, OpMut = m5\<rparr>), Select (RecvOp \<lparr>OpSeqn = 8, OpMut = m8\<rparr>)]"
      "[Select RecvFlush]" "(New emptyDir)\<lparr>watches := [watch_all]\<rparr>"]
  by (simp add: run_watched_5_8 del: run.simps) (simp add: flush_watched_5_8)

lemma run_watched_flush_deliver:
  "run tr [Select (RecvOp \<lparr>OpSeqn = 5, OpMut = m5\<rparr>), Select (RecvOp \<lparr>OpSeqn = 8, OpMut = m8\<rparr>),
           Select RecvFlush, Select SendNotice] ((New emptyDir)\<lparr>watches := [watch_all]\<rparr>)
   = Some ((New emptyDir)
       \<lparr>watches := [watch_all],
        state := (8, fst (node_apply tr (fst (node_apply tr emptyDir 5 m5)) 8 m8)),
        head := 9,
        log := [8 \<mapsto> snd (node_apply tr (fst (node_apply tr emptyDir 5 m5)) 8 m8)],
        notices := [],
        applied := [snd (node_apply tr emptyDir 5 m5),
                    snd (node_apply tr (fst (node_apply tr emptyDir 5 m5)) 8 m8)],
        sent := [(1, snd (node_apply tr (fst (node_apply tr emptyDir 5 m5)) 8 m8))]\<rparr>)"
  using run_append [of tr "[Select (RecvOp \<lparr>OpSeqn = 5, OpMut = m5\<rparr>), Select (RecvOp \<lparr>OpSeqn = 8, OpMut = m8\<rparr>),
           Select RecvFlush]" "[Select SendNotice]" "(New emptyDir)\<lparr>watches := [watch_all]\<rparr>"]
  by (simp add: run_watched_flush del: run.simps) (simp add: deliver_watched_8)

text \<open>
  What an iteration that takes a flush does to the queue of notices. It enqueues no notice
  for the events of the operations it applies, except through its final event: after the
  drain, the final event (the last event applied by the flush, or the zero event when it
  applied none) is matched once against the live watches, and a notice is enqueued for
  each watch that is not stopped, has \<open>from \<le> seqn < to\<close> for the sequence number of
  that event, and whose glob matches its path. The queue after the iteration is the
  queue before it, less the notices of stopped watches at its front, followed by these
  notices.
\<close>

lemma flush_enqueues_final_event:
  assumes "\<not> halted s"
  shows "\<exists>s'. iteration tr RecvFlush s = Some s'
     \<and> notices s' = dropWhile (\<lambda>x. stopped_now s (fst x)) (notices s)
          @ map (\<lambda>w. (w, final_event s s'))
              (filter (\<lambda>w. snd (matching (final_event s s') s w)) (watches s))"
  using iteration_flush [OF assms, of tr] by (auto simp: skip_stopped_eq)

text \<open>
  Claim C2 fails in the code: a change made by a flush is delivered to a watch. On a new
  store, \<open>NewWatchFrom\<close> from 1 with the glob that matches every path registers a watch.
  The operations 5 (\<open>/a=x\<close>) and 8 (\<open>/b=y\<close>) arrive and wait for the operations before
  them. The flush applies both, and after the drain it matches the event of the
  operation 8, the last change it made, against the live watches (lines 358 to 361 of
  store.go): a notice with that event is enqueued for the watch. The next delivery sends
  the event of sequence number 8, of the mutation \<open>-1:/b=y\<close>, on the channel of the
  watch. The documentation of \<open>NewWatch\<close> and of \<open>NewWatchFrom\<close> says that
  notifications will not be sent for changes that were made by calling \<open>Flush\<close>.
\<close>

theorem flush_notice_delivered:
  "NewWatchFrom flat_apply any_glob 1 1 (New ())
     = Some ((Some watch_all, None), (New ())\<lparr>watches := [watch_all]\<rparr>)
   \<and> map (\<lambda>x. (wid (fst x), Seqn (snd x), Mut (snd x)))
       (notices (the (run flat_apply [Select (RecvOp op5), Select (RecvOp op8), Select RecvFlush]
          ((New ())\<lparr>watches := [watch_all]\<rparr>)))) = [(1, 8, ''-1:/b=y'')]
   \<and> map (\<lambda>x. (fst x, Seqn (snd x), Mut (snd x)))
       (sent (the (run flat_apply [Select (RecvOp op5), Select (RecvOp op8), Select RecvFlush,
          Select SendNotice] ((New ())\<lparr>watches := [watch_all]\<rparr>)))) = [(1, 8, ''-1:/b=y'')]"
  unfolding op5_def op8_def run_watched_flush run_watched_flush_deliver register_watch_all
  by (simp add: watch_all_def node_apply_def flat_apply_def split_beta)

subsection \<open>Registration and trimming\<close>

lemma unwatched_frame [simp]:
  "unwatched ch (settle A s) = unwatched ch s"
  "unwatched ch (s\<lparr>todo := td\<rparr>) = unwatched ch s"
  "unwatched ch (s\<lparr>state := sv\<rparr>) = unwatched ch s"
  "unwatched ch (s\<lparr>log := lg\<rparr>) = unwatched ch s"
  "unwatched ch (s\<lparr>head := h\<rparr>) = unwatched ch s"
  "unwatched ch (s\<lparr>applied := ap\<rparr>) = unwatched ch s"
  "unwatched ch (s\<lparr>halted := b\<rparr>) = unwatched ch s"
  "unwatched ch (s\<lparr>shutdown := sd\<rparr>) = unwatched ch s"
  by (simp_all add: unwatched_def)



















text \<open>
  Claim C10: for every \<open>from < 1\<close>, \<open>watchOn\<close> (and so \<open>NewWatchFrom\<close> and \<open>Wait\<close>) returns
  \<open>ErrTooLate\<close> and no watch, and the store is as before: the dispatcher takes no part,
  whatever the state of the store, also a new store on which \<open>Clean\<close> was never called
  and a store whose dispatcher has returned.
\<close>

theorem watch_below_one_too_late:
  assumes "frm < 1"
  shows "watchOn tr g ch frm til s = Some ((None, Some ErrTooLate), s)
       \<and> NewWatchFrom tr g ch frm s = Some ((None, Some ErrTooLate), s)
       \<and> Wait tr g ch frm s = Some ((None, Some ErrTooLate), s)"
  using assms by (simp add: watchOn_def NewWatchFrom_def Wait_def)

text \<open>
  \<open>Wait(0)\<close> and \<open>Wait(-7)\<close> on a new store, and \<open>Wait(0)\<close> after the dispatcher has
  returned.
\<close>

theorem watch_below_one_too_late_witness:
  "(0::int) < 1 \<and> (-7::int) < 1
   \<and> Wait flat_apply any_glob 1 0 (New ()) = Some ((None, Some ErrTooLate), New ())
   \<and> Wait flat_apply any_glob 1 (-7) (New ()) = Some ((None, Some ErrTooLate), New ())
   \<and> NewWatchFrom flat_apply any_glob 1 0 (New ()) = Some ((None, Some ErrTooLate), New ())
   \<and> Wait flat_apply any_glob 1 0 ((New ())\<lparr>halted := True\<rparr>)
       = Some ((None, Some ErrTooLate), (New ())\<lparr>halted := True\<rparr>)"
  using watch_below_one_too_late [of 0 flat_apply any_glob 1 0 "New ()"]
    watch_below_one_too_late [of "-7" flat_apply any_glob 1 0 "New ()"]
    watch_below_one_too_late [of 0 flat_apply any_glob 1 0 "(New ())\<lparr>halted := True\<rparr>"]
  by simp


end
